theory Spec2Isabelle
  imports Main
begin

section \<open>Data model\<close>

text \<open>
  The two marks are the strings \<^verbatim>\<open>"X"\<close> and \<^verbatim>\<open>"O"\<close> of \<^verbatim>\<open>script.js\<close>. A board cell
  holds \<^verbatim>\<open>null\<close>, one of the two marks, or nothing at all: reading a JavaScript array
  beyond its length (or at a hole left by a write beyond its length) gives
  \<^verbatim>\<open>undefined\<close>, which is falsy like \<^verbatim>\<open>null\<close> but is not \<^verbatim>\<open>=== null\<close>.
\<close>

datatype mark = MarkX | MarkO

datatype cell = Null | Hole | Sym mark

type_synonym board = "cell list"

text \<open>\<^verbatim>\<open>board[i]\<close> as an expression and \<^verbatim>\<open>board[i] = v\<close> as a statement, for \<open>i \<ge> 0\<close>.\<close>

definition js_get :: "board \<Rightarrow> nat \<Rightarrow> cell" where
  "js_get b i = (if i < length b then b ! i else Hole)"

definition js_set :: "board \<Rightarrow> nat \<Rightarrow> cell \<Rightarrow> board" where
  "js_set b i v =
     (if i < length b then b[i := v] else b @ replicate (i - length b) Hole @ [v])"

text \<open>Truthiness of a cell: only a (non-empty) mark string is truthy.\<close>

definition truthy :: "cell \<Rightarrow> bool" where
  "truthy c = (case c of Sym m \<Rightarrow> True | _ \<Rightarrow> False)"

text \<open>
  The \<^verbatim>\<open>winner\<close> field of a result is a mark or the string \<^verbatim>\<open>"draw"\<close>; a result
  object is \<^verbatim>\<open>{ winner, combination }\<close>.
\<close>

datatype outcome = Won mark | Draw

record game_result =
  winner :: outcome
  combination :: "nat list"

section \<open>AIPlayer\<close>

text \<open>\<^verbatim>\<open>AIPlayer.checkGameState\<close>: its own copy of the eight triples, then the draw test.\<close>

definition ai_winningCombinations :: "nat list list" where
  "ai_winningCombinations =
     [[0, 1, 2], [3, 4, 5], [6, 7, 8],
      [0, 3, 6], [1, 4, 7], [2, 5, 8],
      [0, 4, 8], [2, 4, 6]]"

fun checkGameState_loop :: "board \<Rightarrow> nat list list \<Rightarrow> mark option" where
  "checkGameState_loop board [] = None"
| "checkGameState_loop board (comb # rest) =
     (let a = comb ! 0; b = comb ! 1; c = comb ! 2 in
      case js_get board a of
        Sym m \<Rightarrow>
          if js_get board a = js_get board b \<and> js_get board a = js_get board c
          then Some m
          else checkGameState_loop board rest
      | _ \<Rightarrow> checkGameState_loop board rest)"

definition checkGameState :: "board \<Rightarrow> outcome option" where
  "checkGameState board =
     (case checkGameState_loop board ai_winningCombinations of
        Some m \<Rightarrow> Some (Won m)
      | None \<Rightarrow> if list_all (\<lambda>cell. cell \<noteq> Null) board then Some Draw else None)"

text \<open>
  Scores are JavaScript numbers: the integers \<open>10 - depth\<close>, \<open>depth - 10\<close> and \<open>0\<close>,
  and the two infinities the loops start from.
\<close>

datatype score = NegInf | Fin int | PosInf

instantiation score :: linorder
begin

fun less_eq_score :: "score \<Rightarrow> score \<Rightarrow> bool" where
  "less_eq_score NegInf _ = True"
| "less_eq_score _ PosInf = True"
| "less_eq_score (Fin a) (Fin b) = (a \<le> b)"
| "less_eq_score _ _ = False"

definition less_score :: "score \<Rightarrow> score \<Rightarrow> bool" where
  "less_score a b = (a \<le> b \<and> \<not> b \<le> a)"

instance
proof
  fix x y z :: score
  show "(x < y) = (x \<le> y \<and> \<not> y \<le> x)" by (simp add: less_score_def)
  show "x \<le> x" by (cases x) simp_all
  show "x \<le> y \<Longrightarrow> y \<le> z \<Longrightarrow> x \<le> z"
    by (cases x; cases y; cases z) simp_all
  show "x \<le> y \<Longrightarrow> y \<le> x \<Longrightarrow> x = y"
    by (cases x; cases y) simp_all
  show "x \<le> y \<or> y \<le> x"
    by (cases x; cases y) auto
qed

end

record AIPlayer =
  aiSymbol :: mark
  humanSymbol :: mark

text \<open>
  \<^verbatim>\<open>AIPlayer.minimax\<close> mutates the board it is given and undoes each trial, so the model
  threads the board through: every function returns the score together with the board
  as the call leaves it. The two \<^verbatim>\<open>for\<close> loops are \<open>maximize_loop\<close> and
  \<open>minimize_loop\<close>, with the loop index and \<^verbatim>\<open>bestScore\<close> as arguments.

  The depth is a JavaScript number holding an integer, here an \<open>int\<close>. The model
  computes what the code computes as long as \<open>depth + 1\<close>, \<open>10 - depth\<close> and
  \<open>depth - 10\<close> are exact in double precision at every depth the call reaches, that
  is, from \<open>depth\<close> to \<open>depth\<close> plus the number of empty cells: this is so when
  \<open>10 - 2 ^ 53 \<le> depth\<close> and \<open>depth + nulls board \<le> 2 ^ 53\<close>. \<open>findBestMove\<close> starts at
  depth 0.
\<close>

function minimax :: "AIPlayer \<Rightarrow> board \<Rightarrow> int \<Rightarrow> bool \<Rightarrow> score \<times> board"
  and maximize_loop :: "AIPlayer \<Rightarrow> board \<Rightarrow> int \<Rightarrow> nat \<Rightarrow> score \<Rightarrow> score \<times> board"
  and minimize_loop :: "AIPlayer \<Rightarrow> board \<Rightarrow> int \<Rightarrow> nat \<Rightarrow> score \<Rightarrow> score \<times> board"
where
  "minimax p board depth isMaximizing =
     (let result = checkGameState board in
      if result = Some (Won (aiSymbol p)) then (Fin (10 - depth), board)
      else if result = Some (Won (humanSymbol p)) then (Fin (depth - 10), board)
      else if result = Some Draw then (Fin 0, board)
      else if isMaximizing then maximize_loop p board depth 0 NegInf
      else minimize_loop p board depth 0 PosInf)"
| "maximize_loop p board depth i bestScore =
     (if i < length board then
        (if js_get board i = Null then
           (let r = minimax p (js_set board i (Sym (aiSymbol p))) (depth + 1) False;
                score = fst r;
                board' = js_set (snd r) i Null
            in maximize_loop p board' depth (i + 1) (max score bestScore))
         else maximize_loop p board depth (i + 1) bestScore)
      else (bestScore, board))"
| "minimize_loop p board depth i bestScore =
     (if i < length board then
        (if js_get board i = Null then
           (let r = minimax p (js_set board i (Sym (humanSymbol p))) (depth + 1) True;
                score = fst r;
                board' = js_set (snd r) i Null
            in minimize_loop p board' depth (i + 1) (min score bestScore))
         else minimize_loop p board depth (i + 1) bestScore)
      else (bestScore, board))"
  by pat_completeness auto

text \<open>
  Termination: the number of \<^verbatim>\<open>null\<close> cells drops at every trial, provided the
  recursive call hands the board back as it got it; this is proved first, for the
  arguments on which the functions are defined.
\<close>

definition nulls :: "board \<Rightarrow> nat" where
  "nulls b = length (filter (\<lambda>c. c = Null) b)"

lemma js_get_in [simp]: "i < length b \<Longrightarrow> js_get b i = b ! i"
  by (simp add: js_get_def)

lemma js_set_in [simp]: "i < length b \<Longrightarrow> js_set b i v = b[i := v]"
  by (simp add: js_set_def)

lemma list_update_Null [simp]: "b ! i = Null \<Longrightarrow> b[i := Null] = b"
  by (metis list_update_id)

lemma trial_undo: "i < length b \<Longrightarrow> b ! i = Null \<Longrightarrow> js_set (js_set b i v) i Null = b"
  by simp

lemma nulls_trial:
  "i < length b \<Longrightarrow> b ! i = Null \<Longrightarrow> Suc (nulls (b[i := Sym m])) = nulls b"
proof (induction b arbitrary: i)
  case Nil
  then show ?case by simp
next
  case (Cons c b)
  then show ?case by (cases i) (auto simp: nulls_def)
qed

lemma nulls_trial_less:
  "i < length b \<Longrightarrow> b ! i = Null \<Longrightarrow> nulls (b[i := Sym m]) < nulls b"
  using nulls_trial [of i b m] by simp

lemma frame_dom:
  "minimax_maximize_loop_minimize_loop_dom (Inl (p, b, d, m)) \<Longrightarrow>
     snd (minimax p b d m) = b"
  "minimax_maximize_loop_minimize_loop_dom (Inr (Inl (p, b, d, i, best))) \<Longrightarrow>
     snd (maximize_loop p b d i best) = b"
  "minimax_maximize_loop_minimize_loop_dom (Inr (Inr (p, b, d, i, best))) \<Longrightarrow>
     snd (minimize_loop p b d i best) = b"
proof (induct rule: minimax_maximize_loop_minimize_loop.pinduct)
  case (1 p board depth isMaximizing)
  then show ?case by (simp add: minimax.psimps Let_def)
next
  case (2 p board depth i bestScore)
  then show ?case by (simp add: maximize_loop.psimps Let_def trial_undo)
next
  case (3 p board depth i bestScore)
  then show ?case by (simp add: minimize_loop.psimps Let_def trial_undo)
qed

termination minimax
proof (relation "measures
    [\<lambda>x. case x of Inl (p, b, d, m) \<Rightarrow> nulls b
                  | Inr (Inl (p, b, d, i, best)) \<Rightarrow> nulls b
                  | Inr (Inr (p, b, d, i, best)) \<Rightarrow> nulls b,
     \<lambda>x. case x of Inl (p, b, d, m) \<Rightarrow> length b + 1
                  | Inr (Inl (p, b, d, i, best)) \<Rightarrow> length b - i
                  | Inr (Inr (p, b, d, i, best)) \<Rightarrow> length b - i]", goal_cases)
  case 1
  then show ?case by simp
next
  case (2 p board depth isMaximizing x)
  then show ?case by simp
next
  case (3 p board depth isMaximizing x)
  then show ?case by simp
next
  case (4 p board depth i bestScore)
  then show ?case using nulls_trial[of i board "aiSymbol p"] by simp
next
  case (5 p board depth i bestScore x xa xb)
  then show ?case by (auto simp: frame_dom(1))
next
  case (6 p board depth i bestScore)
  then show ?case by auto
next
  case (7 p board depth i bestScore)
  then show ?case using nulls_trial[of i board "humanSymbol p"] by simp
next
  case (8 p board depth i bestScore x xa xb)
  then show ?case by (auto simp: frame_dom(1))
next
  case (9 p board depth i bestScore)
  then show ?case by auto
qed


declare minimax.simps [simp del] maximize_loop.simps [simp del] minimize_loop.simps [simp del]

lemma minimax_frame: "snd (minimax p b d m) = b"
  and maximize_loop_frame: "snd (maximize_loop p b d i best) = b"
  and minimize_loop_frame: "snd (minimize_loop p b d i best) = b"
proof (induct p b d m and p b d i best and p b d i best
       rule: minimax_maximize_loop_minimize_loop.induct)
  case (1 p board depth isMaximizing)
  then show ?case by (simp add: minimax.simps [of p board] Let_def)
next
  case (2 p board depth i bestScore)
  then show ?case by (simp add: maximize_loop.simps [of p board] Let_def)
next
  case (3 p board depth i bestScore)
  then show ?case by (simp add: minimize_loop.simps [of p board] Let_def)
qed

text \<open>\<^verbatim>\<open>AIPlayer.findBestMove\<close>: the loop carries \<^verbatim>\<open>bestScore\<close> and \<^verbatim>\<open>bestMove\<close>.\<close>

function findBestMove_loop ::
  "AIPlayer \<Rightarrow> board \<Rightarrow> nat \<Rightarrow> score \<Rightarrow> nat option \<Rightarrow> nat option \<times> board" where
  "findBestMove_loop p board i bestScore bestMove =
     (if i < length board then
        (if js_get board i = Null then
           (let r = minimax p (js_set board i (Sym (aiSymbol p))) 0 False;
                score = fst r;
                board' = js_set (snd r) i Null
            in if bestScore < score
               then findBestMove_loop p board' (i + 1) score (Some i)
               else findBestMove_loop p board' (i + 1) bestScore bestMove)
         else findBestMove_loop p board (i + 1) bestScore bestMove)
      else (bestMove, board))"
  by pat_completeness auto
termination
  by (relation "measure (\<lambda>(p, b, i, s, m). length b - i)")
     (auto simp: minimax_frame)

declare findBestMove_loop.simps [simp del]

definition findBestMove :: "AIPlayer \<Rightarrow> board \<Rightarrow> nat option \<times> board" where
  "findBestMove p board = findBestMove_loop p board 0 NegInf None"

section \<open>GameLogic\<close>

definition winningCombinations :: "nat list list" where
  "winningCombinations =
     [[0, 1, 2], [3, 4, 5], [6, 7, 8],
      [0, 3, 6], [1, 4, 7], [2, 5, 8],
      [0, 4, 8], [2, 4, 6]]"

fun checkWinner_loop :: "board \<Rightarrow> nat list list \<Rightarrow> game_result option" where
  "checkWinner_loop board [] = None"
| "checkWinner_loop board (comb # rest) =
     (let a = comb ! 0; b = comb ! 1; c = comb ! 2 in
      case js_get board a of
        Sym m \<Rightarrow>
          if js_get board a = js_get board b \<and> js_get board a = js_get board c
          then Some \<lparr>winner = Won m, combination = comb\<rparr>
          else checkWinner_loop board rest
      | _ \<Rightarrow> checkWinner_loop board rest)"

definition checkWinner :: "board \<Rightarrow> game_result option" where
  "checkWinner board = checkWinner_loop board winningCombinations"

definition checkDraw :: "board \<Rightarrow> bool" where
  "checkDraw board = list_all (\<lambda>cell. cell \<noteq> Null) board"

definition getGameResult :: "board \<Rightarrow> game_result option" where
  "getGameResult board =
     (case checkWinner board of
        Some winResult \<Rightarrow> Some winResult
      | None \<Rightarrow>
          if checkDraw board then Some \<lparr>winner = Draw, combination = []\<rparr> else None)"

section \<open>GameConfig, GameState and the controller\<close>

text \<open>
  The classes as records. The UI controller only draws, and is left out. Its calls
  cannot fail as long as every cell index handed to it is one of the page's nine cells:
  for an index from 9 on, \<^verbatim>\<open>updateCell\<close> finds no element and throws, after
  \<^verbatim>\<open>makeMove\<close> has written the board and before the turn passes, and the model does
  not follow the code there. So \<open>handleCellClick\<close> stands for the code at indices below
  9, and \<open>aiMoveCallback\<close> on boards of at most nine cells.

  What the controller keeps outside its own fields is the timers started by
  \<^verbatim>\<open>setTimeout\<close> in \<^verbatim>\<open>makeAIMove\<close> that have not fired yet: \<open>pendingAIMoves\<close> counts
  them. The score counters are JavaScript numbers that are only read from storage and
  incremented.
\<close>

datatype game_mode = PlayerMode | AIMode

record GameConfig =
  mode :: game_mode
  playerNames :: "mark \<Rightarrow> string"
  aiPlayer :: mark
  humanPlayer :: mark

record score_ledger =
  score_X :: int
  score_O :: int
  score_draw :: int

record GameState =
  board :: board
  currentPlayer :: mark
  gameActive :: bool
  scores :: score_ledger

record TicTacToeGame =
  config :: GameConfig
  state :: GameState
  ai :: "AIPlayer option"
  pendingAIMoves :: nat

text \<open>
  The constructors. \<^verbatim>\<open>GameState\<close>'s constructor reads the score ledger from local
  storage; what it finds there is the argument \<open>loaded\<close>.
\<close>

definition newGameConfig :: GameConfig where
  "newGameConfig =
     \<lparr>mode = PlayerMode,
      playerNames = (\<lambda>m. case m of MarkX \<Rightarrow> ''Jogador X'' | MarkO \<Rightarrow> ''Jogador O''),
      aiPlayer = MarkO, humanPlayer = MarkX\<rparr>"


definition newGameState :: "score_ledger \<Rightarrow> GameState" where
  "newGameState loaded =
     \<lparr>board = replicate 9 Null, currentPlayer = MarkX, gameActive = True, scores = loaded\<rparr>"

definition newGame :: "score_ledger \<Rightarrow> TicTacToeGame" where
  "newGame loaded =
     \<lparr>config = newGameConfig, state = newGameState loaded, ai = None, pendingAIMoves = 0\<rparr>"

definition setMode :: "game_mode \<Rightarrow> GameConfig \<Rightarrow> GameConfig" where
  "setMode m c =
     (let c' = c\<lparr>mode := m\<rparr> in
      if m = AIMode then c'\<lparr>playerNames := (playerNames c')(MarkO := ''IA'')\<rparr> else c')"

definition mark_name :: "mark \<Rightarrow> string" where
  "mark_name m = (case m of MarkX \<Rightarrow> ''X'' | MarkO \<Rightarrow> ''O'')"

definition setPlayerName :: "mark \<Rightarrow> string \<Rightarrow> GameConfig \<Rightarrow> GameConfig" where
  "setPlayerName player name c =
     c\<lparr>playerNames := (playerNames c)
          (player := (if name = [] then ''Jogador '' @ mark_name player else name))\<rparr>"

definition isAITurn :: "GameConfig \<Rightarrow> mark \<Rightarrow> bool" where
  "isAITurn c player = (mode c = AIMode \<and> player = aiPlayer c)"


definition reset :: "GameState \<Rightarrow> GameState" where
  "reset s = s\<lparr>board := replicate 9 Null, currentPlayer := MarkX, gameActive := True\<rparr>"

definition resetScores :: "GameState \<Rightarrow> GameState" where
  "resetScores s = s\<lparr>scores := \<lparr>score_X = 0, score_O = 0, score_draw = 0\<rparr>\<rparr>"

definition makeMove :: "nat \<Rightarrow> GameState \<Rightarrow> bool \<times> GameState" where
  "makeMove index s =
     (if truthy (js_get (board s) index) \<or> \<not> gameActive s then (False, s)
      else (True, s\<lparr>board := js_set (board s) index (Sym (currentPlayer s))\<rparr>))"

definition switchPlayer :: "GameState \<Rightarrow> GameState" where
  "switchPlayer s = s\<lparr>currentPlayer := (if currentPlayer s = MarkX then MarkO else MarkX)\<rparr>"

definition updateScore :: "outcome \<Rightarrow> GameState \<Rightarrow> GameState" where
  "updateScore w s =
     (case w of
        Draw \<Rightarrow> s\<lparr>scores := (scores s)\<lparr>score_draw := score_draw (scores s) + 1\<rparr>\<rparr>
      | Won MarkX \<Rightarrow> s\<lparr>scores := (scores s)\<lparr>score_X := score_X (scores s) + 1\<rparr>\<rparr>
      | Won MarkO \<Rightarrow> s\<lparr>scores := (scores s)\<lparr>score_O := score_O (scores s) + 1\<rparr>\<rparr>)"

definition handleGameEnd :: "game_result \<Rightarrow> TicTacToeGame \<Rightarrow> TicTacToeGame" where
  "handleGameEnd result g =
     g\<lparr>state := updateScore (winner result) ((state g)\<lparr>gameActive := False\<rparr>)\<rparr>"

text \<open>
  \<^verbatim>\<open>makeAIMove\<close> starts the timer; \<open>aiMoveCallback\<close> is the function the timer runs. It
  works on a copy of the board, and throws (the result \<open>None\<close>) when there is no AI
  player to ask.
\<close>

definition makeAIMove :: "TicTacToeGame \<Rightarrow> TicTacToeGame" where
  "makeAIMove g = g\<lparr>pendingAIMoves := pendingAIMoves g + 1\<rparr>"

definition aiMoveCallback :: "TicTacToeGame \<Rightarrow> TicTacToeGame option" where
  "aiMoveCallback g =
     (case ai g of
        None \<Rightarrow> None
      | Some p \<Rightarrow>
          (case fst (findBestMove p (board (state g))) of
             None \<Rightarrow> Some g
           | Some bestMove \<Rightarrow>
               (let (ok, s') = makeMove bestMove (state g) in
                if \<not> ok then Some g
                else
                  (let g' = g\<lparr>state := s'\<rparr> in
                   case getGameResult (board (state g')) of
                     Some result \<Rightarrow> Some (handleGameEnd result g')
                   | None \<Rightarrow> Some (g'\<lparr>state := switchPlayer (state g')\<rparr>)))))"

definition handleCellClick :: "nat \<Rightarrow> TicTacToeGame \<Rightarrow> TicTacToeGame" where
  "handleCellClick index g =
     (if isAITurn (config g) (currentPlayer (state g)) then g
      else
        (let (ok, s') = makeMove index (state g) in
         if \<not> ok then g
         else
           (let g' = g\<lparr>state := s'\<rparr> in
            case getGameResult (board (state g')) of
              Some result \<Rightarrow> handleGameEnd result g'
            | None \<Rightarrow>
                (let g'' = g'\<lparr>state := switchPlayer (state g')\<rparr> in
                 if isAITurn (config g'') (currentPlayer (state g''))
                 then makeAIMove g'' else g''))))"

definition resetGame :: "TicTacToeGame \<Rightarrow> TicTacToeGame" where
  "resetGame g =
     (let g' = g\<lparr>state := reset (state g)\<rparr> in
      if isAITurn (config g') (currentPlayer (state g')) then makeAIMove g' else g')"

text \<open>A pending timer runs out; with none pending nothing happens.\<close>

definition fireTimer :: "TicTacToeGame \<Rightarrow> TicTacToeGame option" where
  "fireTimer g =
     (if pendingAIMoves g = 0 then Some g
      else aiMoveCallback (g\<lparr>pendingAIMoves := pendingAIMoves g - 1\<rparr>))"

text \<open>
  \<^verbatim>\<open>startGame\<close> with the data read from the setup screen. The AI's display name ends in
  the robot emoji, here its four UTF-8 bytes.
\<close>

record setup_data =
  sd_mode :: game_mode
  playerXName :: string
  playerOName :: string

definition startGame :: "setup_data \<Rightarrow> TicTacToeGame \<Rightarrow> TicTacToeGame" where
  "startGame setupData g =
     (let c = setPlayerName MarkX (playerXName setupData) (setMode (sd_mode setupData) (config g)) in
      if sd_mode setupData = AIMode
      then g\<lparr>config := setPlayerName MarkO
                 (''IA '' @ [CHR 0xF0, CHR 0x9F, CHR 0xA4, CHR 0x96]) c,
             ai := Some \<lparr>aiSymbol = aiPlayer c, humanSymbol = humanPlayer c\<rparr>\<rparr>
      else g\<lparr>config := setPlayerName MarkO (playerOName setupData) c, ai := None\<rparr>)"

text \<open>
  The browser's event loop, as far as the game sees it: a click on cell \<open>index\<close>, a
  click on the reset button, and a timer started by \<^verbatim>\<open>makeAIMove\<close> running out. A
  sequence of human moves is a sequence of clicks, each followed by the AI's timer.
\<close>

datatype event = Click nat | Reset | Timer

definition step :: "event \<Rightarrow> TicTacToeGame \<Rightarrow> TicTacToeGame option" where
  "step e g =
     (case e of
        Click index \<Rightarrow> Some (handleCellClick index g)
      | Reset \<Rightarrow> Some (resetGame g)
      | Timer \<Rightarrow> fireTimer g)"

fun run :: "event list \<Rightarrow> TicTacToeGame \<Rightarrow> TicTacToeGame option" where
  "run [] g = Some g"
| "run (e # es) g = (case step e g of None \<Rightarrow> None | Some g' \<Rightarrow> run es g')"

definition human_moves :: "nat list \<Rightarrow> event list" where
  "human_moves clicks = concat (map (\<lambda>index. [Click index, Timer]) clicks)"

section \<open>Proof devices\<close>

text \<open>
  The AI player that \<^verbatim>\<open>startGame\<close> builds from \<^verbatim>\<open>GameConfig\<close>.
\<close>

abbreviation theAI :: AIPlayer where
  "theAI \<equiv> \<lparr>aiSymbol = MarkO, humanSymbol = MarkX\<rparr>"

text \<open>
  A depth-free reading of the search, used only in proofs: \<open>holds p who b isMaximizing\<close>
  says that mark \<open>who\<close> can avoid losing from board \<open>b\<close> when the maximizing
  (\<open>isMaximizing\<close>) or the minimizing layer is to move. The loops stop at the first
  cell that settles the question.
\<close>

definition mover :: "AIPlayer \<Rightarrow> bool \<Rightarrow> mark" where
  "mover p isMaximizing = (if isMaximizing then aiSymbol p else humanSymbol p)"

function holds :: "AIPlayer \<Rightarrow> mark \<Rightarrow> board \<Rightarrow> bool \<Rightarrow> bool"
  and holds_some :: "AIPlayer \<Rightarrow> mark \<Rightarrow> board \<Rightarrow> bool \<Rightarrow> nat \<Rightarrow> bool"
  and holds_all :: "AIPlayer \<Rightarrow> mark \<Rightarrow> board \<Rightarrow> bool \<Rightarrow> nat \<Rightarrow> bool"
where
  "holds p who b isMaximizing =
     (case checkGameState b of
        Some (Won w) \<Rightarrow> w = who
      | Some Draw \<Rightarrow> True
      | None \<Rightarrow>
          if mover p isMaximizing = who then holds_some p who b isMaximizing 0
          else holds_all p who b isMaximizing 0)"
| "holds_some p who b isMaximizing i =
     (if i < length b then
        (if b ! i = Null then
           (if holds p who (b[i := Sym (mover p isMaximizing)]) (\<not> isMaximizing) then True
            else holds_some p who b isMaximizing (Suc i))
         else holds_some p who b isMaximizing (Suc i))
      else False)"
| "holds_all p who b isMaximizing i =
     (if i < length b then
        (if b ! i = Null then
           (if holds p who (b[i := Sym (mover p isMaximizing)]) (\<not> isMaximizing)
            then holds_all p who b isMaximizing (Suc i)
            else False)
         else holds_all p who b isMaximizing (Suc i))
      else True)"
  by pat_completeness auto
termination holds
  by (relation "measures
    [\<lambda>x. case x of Inl (p, w, b, m) \<Rightarrow> nulls b
                  | Inr (Inl (p, w, b, m, i)) \<Rightarrow> nulls b
                  | Inr (Inr (p, w, b, m, i)) \<Rightarrow> nulls b,
     \<lambda>x. case x of Inl (p, w, b, m) \<Rightarrow> length b + 1
                  | Inr (Inl (p, w, b, m, i)) \<Rightarrow> length b - i
                  | Inr (Inr (p, w, b, m, i)) \<Rightarrow> length b - i]")
    (auto simp: nulls_trial_less)

declare holds.simps [simp del] holds_some.simps [simp del] holds_all.simps [simp del]

text \<open>
  The terminal test on a board written out as nine cells, for evaluation.
\<close>

definition tri :: "cell \<Rightarrow> cell \<Rightarrow> cell \<Rightarrow> mark option \<Rightarrow> mark option" where
  "tri x y z k = (case x of Sym m \<Rightarrow> if x = y \<and> x = z then Some m else k | _ \<Rightarrow> k)"

text \<open>Mark \<open>m\<close> fills the triple \<open>t\<close> of board \<open>b\<close>.\<close>

abbreviation line :: "board \<Rightarrow> nat list \<Rightarrow> mark \<Rightarrow> bool" where
  "line b t m \<equiv>
     js_get b (t ! 0) = Sym m \<and> js_get b (t ! 1) = Sym m \<and> js_get b (t ! 2) = Sym m"

text \<open>
  The states of an AI session between two human moves: the AI plays O, no timer is
  pending, the board has its nine cells, X's score counter is \<open>x\<close>, O cannot be made
  to lose from the board, and while the game is active it is X's turn on a board that is
  not terminal.
\<close>

definition ai_session :: "int \<Rightarrow> TicTacToeGame \<Rightarrow> bool" where
  "ai_session x g \<longleftrightarrow>
     mode (config g) = AIMode \<and> aiPlayer (config g) = MarkO \<and> ai g = Some theAI \<and>
     pendingAIMoves g = 0 \<and> length (board (state g)) = 9 \<and>
     Hole \<notin> set (board (state g)) \<and> score_X (scores (state g)) = x \<and>
     holds theAI MarkO (board (state g)) False \<and>
     (gameActive (state g) \<longrightarrow>
        currentPlayer (state g) = MarkX \<and> checkGameState (board (state g)) = None)"

section \<open>The rules engine and the AI's terminal test\<close>

lemma checkWinner_loop_None:
  "checkWinner_loop b cs = None \<longleftrightarrow> (\<forall>t\<in>set cs. \<forall>m. \<not> line b t m)"
  by (induction cs) (auto simp: Let_def split: cell.splits)

lemma checkWinner_loop_Some:
  "checkWinner_loop b cs = Some r \<Longrightarrow>
     \<exists>k<length cs. \<exists>m. line b (cs ! k) m \<and> (\<forall>j<k. \<forall>m'. \<not> line b (cs ! j) m') \<and>
        r = \<lparr>winner = Won m, combination = cs ! k\<rparr>"
proof (induction cs)
  case Nil
  then show ?case by simp
next
  case (Cons t cs)
  show ?case
  proof (cases "\<exists>m. line b t m")
    case True
    then obtain m where m: "line b t m" by blast
    with Cons.prems have "r = \<lparr>winner = Won m, combination = t\<rparr>"
      by (simp add: Let_def)
    with m show ?thesis by (intro exI [of _ 0]) auto
  next
    case False
    with Cons.prems have "checkWinner_loop b cs = Some r"
      by (auto simp: Let_def split: cell.splits if_splits)
    from Cons.IH [OF this] obtain k m where k: "k < length cs" "line b (cs ! k) m"
      "\<forall>j<k. \<forall>m'. \<not> line b (cs ! j) m'" "r = \<lparr>winner = Won m, combination = cs ! k\<rparr>"
      by blast
    have "\<forall>j<Suc k. \<forall>m'. \<not> line b ((t # cs) ! j) m'"
    proof (intro allI impI)
      fix j m' assume "j < Suc k"
      then show "\<not> line b ((t # cs) ! j) m'"
        using False k(3) by (cases j) auto
    qed
    with k show ?thesis by (intro exI [of _ "Suc k"]) auto
  qed
qed

lemma line_winningCombinations:
  "t \<in> set winningCombinations \<Longrightarrow> length b = 9 \<Longrightarrow>
     line b t m \<longleftrightarrow> (\<forall>i\<in>set t. b ! i = Sym m)"
  by (auto simp: winningCombinations_def)

lemma length_winningCombinations: "length winningCombinations = 8"
  by (simp add: winningCombinations_def)

text \<open>
  Claim C2. On a 9-cell board \<open>getGameResult\<close> goes through the eight triples in the
  order rows, columns, diagonals, and reports a win of mark \<open>m\<close> with the first triple
  whose three cells all hold \<open>m\<close>; with no such triple it reports a draw when no cell is
  \<^verbatim>\<open>null\<close>, and nothing (the game goes on) when some cell is.
\<close>

theorem getGameResult_cases:
  assumes "length b = 9"
  shows "winningCombinations =
           [[0, 1, 2], [3, 4, 5], [6, 7, 8], [0, 3, 6], [1, 4, 7], [2, 5, 8],
            [0, 4, 8], [2, 4, 6]] \<and>
         ((\<exists>k<8. \<exists>m. (\<forall>i\<in>set (winningCombinations ! k). b ! i = Sym m) \<and>
             (\<forall>j<k. \<forall>m'. \<not> (\<forall>i\<in>set (winningCombinations ! j). b ! i = Sym m')) \<and>
             getGameResult b = Some \<lparr>winner = Won m, combination = winningCombinations ! k\<rparr>)
          \<or> ((\<forall>k<8. \<forall>m. \<not> (\<forall>i\<in>set (winningCombinations ! k). b ! i = Sym m)) \<and>
               (\<forall>c\<in>set b. c \<noteq> Null) \<and>
               getGameResult b = Some \<lparr>winner = Draw, combination = []\<rparr>)
          \<or> ((\<forall>k<8. \<forall>m. \<not> (\<forall>i\<in>set (winningCombinations ! k). b ! i = Sym m)) \<and>
               (\<exists>c\<in>set b. c = Null) \<and>
               getGameResult b = None))"
proof (intro conjI)
  show "winningCombinations =
           [[0, 1, 2], [3, 4, 5], [6, 7, 8], [0, 3, 6], [1, 4, 7], [2, 5, 8],
            [0, 4, 8], [2, 4, 6]]"
    by (simp add: winningCombinations_def)
next
  have bridge: "line b (winningCombinations ! k) m \<longleftrightarrow>
      (\<forall>i\<in>set (winningCombinations ! k). b ! i = Sym m)" if "k < 8" for k m
    using that assms line_winningCombinations [of "winningCombinations ! k" b m]
    by (simp add: length_winningCombinations)
  show "(\<exists>k<8. \<exists>m. (\<forall>i\<in>set (winningCombinations ! k). b ! i = Sym m) \<and>
             (\<forall>j<k. \<forall>m'. \<not> (\<forall>i\<in>set (winningCombinations ! j). b ! i = Sym m')) \<and>
             getGameResult b = Some \<lparr>winner = Won m, combination = winningCombinations ! k\<rparr>)
          \<or> ((\<forall>k<8. \<forall>m. \<not> (\<forall>i\<in>set (winningCombinations ! k). b ! i = Sym m)) \<and>
               (\<forall>c\<in>set b. c \<noteq> Null) \<and>
               getGameResult b = Some \<lparr>winner = Draw, combination = []\<rparr>)
          \<or> ((\<forall>k<8. \<forall>m. \<not> (\<forall>i\<in>set (winningCombinations ! k). b ! i = Sym m)) \<and>
               (\<exists>c\<in>set b. c = Null) \<and>
               getGameResult b = None)"
  proof (cases "checkWinner b")
    case (Some r)
    from checkWinner_loop_Some [OF Some [unfolded checkWinner_def]]
    obtain k m where k0: "k < length winningCombinations"
      and k: "line b (winningCombinations ! k) m"
      "\<forall>j<k. \<forall>m'. \<not> line b (winningCombinations ! j) m'"
      "r = \<lparr>winner = Won m, combination = winningCombinations ! k\<rparr>"
      by blast
    from k0 have k8: "k < 8" by (simp add: length_winningCombinations)
    have "\<not> (\<forall>i\<in>set (winningCombinations ! j). b ! i = Sym m')" if "j < k" for j m'
    proof -
      from that k8 have "j < 8" by simp
      from bridge [OF this] k(2) that show ?thesis by blast
    qed
    then have "\<forall>j<k. \<forall>m'. \<not> (\<forall>i\<in>set (winningCombinations ! j). b ! i = Sym m')"
      by blast
    moreover have "\<forall>i\<in>set (winningCombinations ! k). b ! i = Sym m"
      using k(1) bridge [OF k8] by blast
    moreover have "getGameResult b = Some \<lparr>winner = Won m, combination = winningCombinations ! k\<rparr>"
      using Some k(3) by (simp add: getGameResult_def)
    ultimately show ?thesis using k8 by blast
  next
    case None
    then have noline: "\<forall>t\<in>set winningCombinations. \<forall>m. \<not> line b t m"
      by (simp add: checkWinner_def checkWinner_loop_None)
    have "\<not> (\<forall>i\<in>set (winningCombinations ! k). b ! i = Sym m)" if "k < 8" for k m
    proof -
      from that have "winningCombinations ! k \<in> set winningCombinations"
        by (simp add: length_winningCombinations)
      with noline have "\<not> line b (winningCombinations ! k) m" by blast
      with bridge [OF that] show ?thesis by blast
    qed
    then have nowin: "\<forall>k<8. \<forall>m. \<not> (\<forall>i\<in>set (winningCombinations ! k). b ! i = Sym m)"
      by blast
    show ?thesis
    proof (cases "checkDraw b")
      case True
      then have "\<forall>c\<in>set b. c \<noteq> Null" by (simp add: checkDraw_def list_all_iff)
      moreover have "getGameResult b = Some \<lparr>winner = Draw, combination = []\<rparr>"
        using None True by (simp add: getGameResult_def)
      ultimately show ?thesis using nowin by blast
    next
      case False
      then have "\<exists>c\<in>set b. c = Null" by (simp add: checkDraw_def list_all_iff)
      moreover have "getGameResult b = None"
        using None False by (simp add: getGameResult_def)
      ultimately show ?thesis using nowin by blast
    qed
  qed
qed

theorem getGameResult_cases_witness:
  "length [Sym MarkX, Sym MarkX, Sym MarkX, Sym MarkO, Sym MarkO, Null, Null, Null, Null] = 9 \<and>
   getGameResult [Sym MarkX, Sym MarkX, Sym MarkX, Sym MarkO, Sym MarkO, Null, Null, Null, Null] =
     Some \<lparr>winner = Won MarkX, combination = [0, 1, 2]\<rparr>"
  using getGameResult_cases
    [of "[Sym MarkX, Sym MarkX, Sym MarkX, Sym MarkO, Sym MarkO, Null, Null, Null, Null]"]
  by (simp add: getGameResult_def checkWinner_def winningCombinations_def)

lemma checkGameState_loop_eq:
  "checkGameState_loop b cs = map_option (\<lambda>r. case winner r of Won m \<Rightarrow> m | Draw \<Rightarrow> MarkX) (checkWinner_loop b cs)"
  by (induction cs) (auto simp: Let_def split: cell.splits)

lemma checkWinner_loop_Won:
  "checkWinner_loop b cs = Some r \<Longrightarrow> \<exists>m. winner r = Won m"
  by (induction cs) (auto simp: Let_def split: cell.splits if_splits)

lemma checkGameState_getGameResult:
  "checkGameState b = map_option winner (getGameResult b)"
proof (cases "checkWinner_loop b winningCombinations")
  case None
  then show ?thesis
    by (simp add: checkGameState_def getGameResult_def checkWinner_def checkDraw_def
        checkGameState_loop_eq ai_winningCombinations_def winningCombinations_def)
next
  case (Some r)
  then obtain m where "winner r = Won m"
    using checkWinner_loop_Won by blast
  with Some show ?thesis
    by (simp add: checkGameState_def getGameResult_def checkWinner_def checkDraw_def
        checkGameState_loop_eq ai_winningCombinations_def winningCombinations_def)
qed

text \<open>
  Claim C10. \<open>AIPlayer.checkGameState\<close> and \<open>GameLogic.getGameResult\<close> agree on every
  board: the former returns the \<^verbatim>\<open>winner\<close> field of what the latter returns (a mark,
  or \<^verbatim>\<open>"draw"\<close>), and \<^verbatim>\<open>null\<close> exactly when the latter returns \<^verbatim>\<open>null\<close>.
\<close>

theorem checkGameState_agrees:
  "checkGameState b = map_option winner (getGameResult b)"
  by (rule checkGameState_getGameResult)


section \<open>The search restores the board\<close>

lemma findBestMove_loop_frame: "snd (findBestMove_loop p b i s m) = b"
proof (induct p b i s m rule: findBestMove_loop.induct)
  case (1 p board i bestScore bestMove)
  then show ?case
    by (simp add: findBestMove_loop.simps [of p board] Let_def minimax_frame)
qed

text \<open>
  Claim C5. \<open>minimax\<close> and \<open>findBestMove\<close> return with the board equal to the board
  they were given: every trial placement, at every depth, has been undone.
\<close>

theorem search_restores_board:
  "snd (minimax p b d m) = b \<and> snd (findBestMove p b) = b"
  by (simp add: minimax_frame findBestMove_def findBestMove_loop_frame)

section \<open>What minimax computes\<close>

lemma NegInf_le [simp]: "NegInf \<le> x"
  by (cases x) simp_all

lemma le_PosInf [simp]: "x \<le> PosInf"
  by (cases x) simp_all

lemma Fin_less_Fin [simp]: "Fin a < Fin b \<longleftrightarrow> a < b"
  by (auto simp: less_score_def)

lemma NegInf_less_Fin [simp]: "NegInf < Fin a"
  by (simp add: less_score_def)

lemma Fin_less_PosInf [simp]: "Fin a < PosInf"
  by (simp add: less_score_def)

lemma Max_insert_max:
  "finite A \<Longrightarrow> Max (insert (max c s) A) = Max (insert c (insert s A))"
  for c s :: "'a::linorder"
  by (cases "A = {}") (simp_all add: max.assoc)

lemma Min_insert_min:
  "finite A \<Longrightarrow> Min (insert (min c s) A) = Min (insert c (insert s A))"
  for c s :: "'a::linorder"
  by (cases "A = {}") (simp_all add: min.assoc)

lemma empties_from:
  "i < length b \<Longrightarrow> b ! i = Null \<Longrightarrow>
     {j. i \<le> j \<and> j < length b \<and> b ! j = Null} =
       insert i {j. Suc i \<le> j \<and> j < length b \<and> b ! j = Null}"
  "i < length b \<Longrightarrow> b ! i \<noteq> Null \<Longrightarrow>
     {j. i \<le> j \<and> j < length b \<and> b ! j = Null} =
       {j. Suc i \<le> j \<and> j < length b \<and> b ! j = Null}"
  by (auto simp: Suc_le_eq le_less) 

lemma maximize_loop_Max:
  "fst (maximize_loop p b d i best) =
     Max (insert best ((\<lambda>j. fst (minimax p (b[j := Sym (aiSymbol p)]) (d + 1) False)) `
            {j. i \<le> j \<and> j < length b \<and> b ! j = Null}))"
proof (induction "length b - i" arbitrary: i best)
  case 0
  then have e: "{j. i \<le> j \<and> j < length b \<and> b ! j = Null} = {}" by auto
  from 0 show ?case unfolding e by (simp add: maximize_loop.simps [of p b d i])
next
  case (Suc n)
  then have i: "i < length b" and n: "n = length b - Suc i" by auto
  show ?case
  proof (cases "b ! i = Null")
    case True
    let ?f = "\<lambda>j. fst (minimax p (b[j := Sym (aiSymbol p)]) (d + 1) False)"
    let ?A = "?f ` {j. Suc i \<le> j \<and> j < length b \<and> b ! j = Null}"
    have fin: "finite ?A" by simp
    have "fst (maximize_loop p b d i best) = fst (maximize_loop p b d (Suc i) (max (?f i) best))"
      using i True by (simp add: maximize_loop.simps [of p b d i] Let_def minimax_frame)
    also have "\<dots> = Max (insert (max (?f i) best) ?A)"
      by (rule Suc.hyps(1) [OF n])
    also have "\<dots> = Max (insert (?f i) (insert best ?A))"
      by (rule Max_insert_max [OF fin])
    also have "insert (?f i) (insert best ?A) =
        insert best (?f ` {j. i \<le> j \<and> j < length b \<and> b ! j = Null})"
      unfolding empties_from(1) [OF i True] by auto
    finally show ?thesis .
  next
    case False
    have "fst (maximize_loop p b d i best) = fst (maximize_loop p b d (Suc i) best)"
      using i False by (simp add: maximize_loop.simps [of p b d i])
    also note Suc.hyps(1) [OF n]
    finally show ?thesis
      using i False by (simp add: empties_from(2))
  qed
qed

lemma minimize_loop_Min:
  "fst (minimize_loop p b d i best) =
     Min (insert best ((\<lambda>j. fst (minimax p (b[j := Sym (humanSymbol p)]) (d + 1) True)) `
            {j. i \<le> j \<and> j < length b \<and> b ! j = Null}))"
proof (induction "length b - i" arbitrary: i best)
  case 0
  then have e: "{j. i \<le> j \<and> j < length b \<and> b ! j = Null} = {}" by auto
  from 0 show ?case unfolding e by (simp add: minimize_loop.simps [of p b d i])
next
  case (Suc n)
  then have i: "i < length b" and n: "n = length b - Suc i" by auto
  show ?case
  proof (cases "b ! i = Null")
    case True
    let ?f = "\<lambda>j. fst (minimax p (b[j := Sym (humanSymbol p)]) (d + 1) True)"
    let ?A = "?f ` {j. Suc i \<le> j \<and> j < length b \<and> b ! j = Null}"
    have fin: "finite ?A" by simp
    have "fst (minimize_loop p b d i best) = fst (minimize_loop p b d (Suc i) (min (?f i) best))"
      using i True by (simp add: minimize_loop.simps [of p b d i] Let_def minimax_frame)
    also have "\<dots> = Min (insert (min (?f i) best) ?A)"
      by (rule Suc.hyps(1) [OF n])
    also have "\<dots> = Min (insert (?f i) (insert best ?A))"
      by (rule Min_insert_min [OF fin])
    also have "insert (?f i) (insert best ?A) =
        insert best (?f ` {j. i \<le> j \<and> j < length b \<and> b ! j = Null})"
      unfolding empties_from(1) [OF i True] by auto
    finally show ?thesis .
  next
    case False
    have "fst (minimize_loop p b d i best) = fst (minimize_loop p b d (Suc i) best)"
      using i False by (simp add: minimize_loop.simps [of p b d i])
    also note Suc.hyps(1) [OF n]
    finally show ?thesis
      using i False by (simp add: empties_from(2))
  qed
qed

lemma checkGameState_None_empty:
  "checkGameState b = None \<Longrightarrow> \<exists>i<length b. b ! i = Null"
  by (auto simp: checkGameState_def list_all_iff in_set_conv_nth
      split: option.splits if_splits)

lemma minimax_terminal:
  "checkGameState b = Some (Won (aiSymbol p)) \<Longrightarrow> fst (minimax p b d m) = Fin (10 - d)"
  "checkGameState b = Some (Won (humanSymbol p)) \<Longrightarrow> aiSymbol p \<noteq> humanSymbol p \<Longrightarrow>
     fst (minimax p b d m) = Fin (d - 10)"
  "checkGameState b = Some Draw \<Longrightarrow> fst (minimax p b d m) = Fin 0"
  by (simp_all add: minimax.simps [of p b d m])

lemma minimax_maximizing:
  assumes "checkGameState b = None"
  shows "fst (minimax p b d True) =
     Max ((\<lambda>i. fst (minimax p (b[i := Sym (aiSymbol p)]) (d + 1) False)) `
            {i. i < length b \<and> b ! i = Null})"
proof -
  let ?S = "(\<lambda>i. fst (minimax p (b[i := Sym (aiSymbol p)]) (d + 1) False)) `
            {i. i < length b \<and> b ! i = Null}"
  from checkGameState_None_empty [OF assms] have ne: "?S \<noteq> {}" by auto
  have "fst (minimax p b d True) = Max (insert NegInf ?S)"
    using assms by (simp add: minimax.simps [of p b d True] maximize_loop_Max)
  also have "\<dots> = Max ?S" using ne by (simp add: max_absorb2)
  finally show ?thesis .
qed

lemma minimax_minimizing:
  assumes "checkGameState b = None"
  shows "fst (minimax p b d False) =
     Min ((\<lambda>i. fst (minimax p (b[i := Sym (humanSymbol p)]) (d + 1) True)) `
            {i. i < length b \<and> b ! i = Null})"
proof -
  let ?S = "(\<lambda>i. fst (minimax p (b[i := Sym (humanSymbol p)]) (d + 1) True)) `
            {i. i < length b \<and> b ! i = Null}"
  from checkGameState_None_empty [OF assms] have ne: "?S \<noteq> {}" by auto
  have "fst (minimax p b d False) = Min (insert PosInf ?S)"
    using assms by (simp add: minimax.simps [of p b d False] minimize_loop_Min)
  also have "\<dots> = Min ?S" using ne by (simp add: min_absorb2)
  finally show ?thesis .
qed

text \<open>
  Claim C3. With two distinct marks and a depth in the range where the numbers of the
  search are exact (\<open>10 - 2 ^ 53 \<le> depth\<close> and \<open>depth\<close> plus the number of empty cells at
  most \<open>2 ^ 53\<close>), \<open>minimax\<close> scores a board won by the AI's mark \<open>10 - depth\<close>, a board
  won by the human's mark \<open>depth - 10\<close> and a drawn board \<open>0\<close>. On any other board there
  is an empty cell, the maximizing layer returns the maximum, over the empty cells, of
  the minimizing layer's score at \<open>depth + 1\<close> with the AI's mark in that cell, and the
  minimizing layer returns the minimum of the maximizing layer's scores with the
  human's mark there.
\<close>

theorem minimax_spec:
  assumes "aiSymbol p \<noteq> humanSymbol p"
    and "10 - 2 ^ 53 \<le> d" and "d + int (nulls b) \<le> 2 ^ 53"
  shows "(checkGameState b = Some (Won (aiSymbol p)) \<longrightarrow>
            fst (minimax p b d m) = Fin (10 - d)) \<and>
         (checkGameState b = Some (Won (humanSymbol p)) \<longrightarrow>
            fst (minimax p b d m) = Fin (d - 10)) \<and>
         (checkGameState b = Some Draw \<longrightarrow> fst (minimax p b d m) = Fin 0) \<and>
         (checkGameState b = None \<longrightarrow>
            {i. i < length b \<and> b ! i = Null} \<noteq> {} \<and>
            fst (minimax p b d True) =
              Max ((\<lambda>i. fst (minimax p (b[i := Sym (aiSymbol p)]) (d + 1) False)) `
                     {i. i < length b \<and> b ! i = Null}) \<and>
            fst (minimax p b d False) =
              Min ((\<lambda>i. fst (minimax p (b[i := Sym (humanSymbol p)]) (d + 1) True)) `
                     {i. i < length b \<and> b ! i = Null}))"
  using assms(1) minimax_terminal [of b p d m] minimax_maximizing [of b p d]
    minimax_minimizing [of b p d] checkGameState_None_empty [of b]
  by auto

theorem minimax_spec_witness:
  "aiSymbol \<lparr>aiSymbol = MarkO, humanSymbol = MarkX\<rparr> \<noteq> humanSymbol \<lparr>aiSymbol = MarkO, humanSymbol = MarkX\<rparr> \<and>
   10 - 2 ^ 53 \<le> (7::int) \<and>
   7 + int (nulls [Sym MarkX, Sym MarkO, Sym MarkX, Sym MarkX, Sym MarkO, Sym MarkO, Null, Sym MarkX, Null]) \<le> 2 ^ 53 \<and>
   checkGameState [Sym MarkX, Sym MarkO, Sym MarkX, Sym MarkX, Sym MarkO, Sym MarkO, Null, Sym MarkX, Null] = None \<and>
   fst (minimax \<lparr>aiSymbol = MarkO, humanSymbol = MarkX\<rparr> [Sym MarkX, Sym MarkO, Sym MarkX, Sym MarkX, Sym MarkO, Sym MarkO, Null, Sym MarkX, Null] 7 True) =
     Max ((\<lambda>i. fst (minimax \<lparr>aiSymbol = MarkO, humanSymbol = MarkX\<rparr> ([Sym MarkX, Sym MarkO, Sym MarkX, Sym MarkX, Sym MarkO, Sym MarkO, Null, Sym MarkX, Null][i := Sym MarkO]) (7 + 1) False)) `
            {i. i < length [Sym MarkX, Sym MarkO, Sym MarkX, Sym MarkX, Sym MarkO, Sym MarkO, Null, Sym MarkX, Null] \<and> [Sym MarkX, Sym MarkO, Sym MarkX, Sym MarkX, Sym MarkO, Sym MarkO, Null, Sym MarkX, Null] ! i = Null}) \<and>
   fst (minimax \<lparr>aiSymbol = MarkO, humanSymbol = MarkX\<rparr> [Sym MarkX, Sym MarkO, Sym MarkX, Sym MarkX, Sym MarkO, Sym MarkO, Null, Sym MarkX, Null] 7 True) = Fin 0"
proof -
  have h: "aiSymbol \<lparr>aiSymbol = MarkO, humanSymbol = MarkX\<rparr> \<noteq> humanSymbol \<lparr>aiSymbol = MarkO, humanSymbol = MarkX\<rparr>" by simp
  have lo: "10 - 2 ^ 53 \<le> (7::int)" by simp
  have hi: "7 + int (nulls [Sym MarkX, Sym MarkO, Sym MarkX, Sym MarkX, Sym MarkO, Sym MarkO, Null, Sym MarkX, Null]) \<le> 2 ^ 53" by (simp add: nulls_def)
  have n: "checkGameState [Sym MarkX, Sym MarkO, Sym MarkX, Sym MarkX, Sym MarkO, Sym MarkO, Null, Sym MarkX, Null] = None" by code_simp
  have v: "fst (minimax \<lparr>aiSymbol = MarkO, humanSymbol = MarkX\<rparr> [Sym MarkX, Sym MarkO, Sym MarkX, Sym MarkX, Sym MarkO, Sym MarkO, Null, Sym MarkX, Null] 7 True) = Fin 0" by code_simp
  from minimax_spec [OF h lo hi, of True] n h lo hi v show ?thesis by simp
qed

section \<open>What findBestMove returns\<close>

lemma mark_cases2: "a \<noteq> h \<Longrightarrow> w = a \<or> w = (h::mark)"
  by (cases a; cases h; cases w) simp_all

lemma minimax_finite:
  assumes "aiSymbol p \<noteq> humanSymbol p"
  shows "\<exists>v. fst (minimax p b d m) = Fin v"
proof (induction "nulls b" arbitrary: b d m rule: less_induct)
  case less
  show ?case
  proof (cases "checkGameState b")
    case (Some r)
    show ?thesis
    proof (cases r)
      case (Won w)
      with mark_cases2 [OF assms, of w] Some minimax_terminal(1,2) [of b p d m] assms
      show ?thesis by auto
    next
      case Draw
      with Some minimax_terminal(3) [of b p d m] show ?thesis by simp
    qed
  next
    case None
    let ?E = "{i. i < length b \<and> b ! i = Null}"
    from checkGameState_None_empty [OF None] have ne: "?E \<noteq> {}" by auto
    have fin: "finite ?E" by simp
    show ?thesis
    proof (cases m)
      case True
      let ?f = "\<lambda>i. fst (minimax p (b[i := Sym (aiSymbol p)]) (d + 1) False)"
      have "Max (?f ` ?E) \<in> ?f ` ?E" using ne fin by (intro Max_in) auto
      then obtain i where "i \<in> ?E" "Max (?f ` ?E) = ?f i" by auto
      moreover from this less [of "b[i := Sym (aiSymbol p)]" "d + 1" False]
      have "\<exists>v. ?f i = Fin v" by (simp add: nulls_trial_less)
      ultimately show ?thesis using True minimax_maximizing [OF None, of p d] by simp
    next
      case False
      let ?f = "\<lambda>i. fst (minimax p (b[i := Sym (humanSymbol p)]) (d + 1) True)"
      have "Min (?f ` ?E) \<in> ?f ` ?E" using ne fin by (intro Min_in) auto
      then obtain i where "i \<in> ?E" "Min (?f ` ?E) = ?f i" by auto
      moreover from this less [of "b[i := Sym (humanSymbol p)]" "d + 1" True]
      have "\<exists>v. ?f i = Fin v" by (simp add: nulls_trial_less)
      ultimately show ?thesis using False minimax_minimizing [OF None, of p d] by simp
    qed
  qed
qed

lemma findBestMove_loop_step:
  "fst (findBestMove_loop p b i s m) =
     (if i < length b then
        (if b ! i = Null then
           (if s < fst (minimax p (b[i := Sym (aiSymbol p)]) 0 False)
            then fst (findBestMove_loop p b (Suc i)
                   (fst (minimax p (b[i := Sym (aiSymbol p)]) 0 False)) (Some i))
            else fst (findBestMove_loop p b (Suc i) s m))
         else fst (findBestMove_loop p b (Suc i) s m))
      else m)"
  by (subst findBestMove_loop.simps) (simp add: Let_def minimax_frame)

lemma findBestMove_loop_inv:
  fixes p b
  defines "sc \<equiv> \<lambda>j. fst (minimax p (b[j := Sym (aiSymbol p)]) 0 False)"
  shows "\<exists>s'. s \<le> s' \<and> (\<forall>j. i \<le> j \<and> j < length b \<and> b ! j = Null \<longrightarrow> sc j \<le> s') \<and>
     ((s' = s \<and> fst (findBestMove_loop p b i s m) = m) \<or>
      (\<exists>k. fst (findBestMove_loop p b i s m) = Some k \<and> i \<le> k \<and> k < length b \<and>
           b ! k = Null \<and> sc k = s' \<and> s < s' \<and>
           (\<forall>j. i \<le> j \<and> j < k \<and> b ! j = Null \<longrightarrow> sc j < s')))"
proof (induction "length b - i" arbitrary: i s m)
  case 0
  then show ?case
    by (subst (1 2) findBestMove_loop_step) auto
next
  case (Suc n)
  then have i: "i < length b" and n: "n = length b - Suc i" by auto
  show ?case
  proof (cases "b ! i = Null \<and> s < sc i")
    case True
    then have step: "fst (findBestMove_loop p b i s m) =
        fst (findBestMove_loop p b (Suc i) (sc i) (Some i))"
      using i by (subst findBestMove_loop_step) (simp add: sc_def)
    from Suc.hyps(1) [OF n, of "sc i" "Some i"] obtain s' where
      s': "sc i \<le> s'" "\<forall>j. Suc i \<le> j \<and> j < length b \<and> b ! j = Null \<longrightarrow> sc j \<le> s'"
      and alt: "(s' = sc i \<and> fst (findBestMove_loop p b (Suc i) (sc i) (Some i)) = Some i) \<or>
        (\<exists>k. fst (findBestMove_loop p b (Suc i) (sc i) (Some i)) = Some k \<and> Suc i \<le> k \<and>
           k < length b \<and> b ! k = Null \<and> sc k = s' \<and> sc i < s' \<and>
           (\<forall>j. Suc i \<le> j \<and> j < k \<and> b ! j = Null \<longrightarrow> sc j < s'))"
      by blast
    have all: "\<forall>j. i \<le> j \<and> j < length b \<and> b ! j = Null \<longrightarrow> sc j \<le> s'"
    proof (intro allI impI)
      fix j assume "i \<le> j \<and> j < length b \<and> b ! j = Null"
      then show "sc j \<le> s'" using s' by (cases "j = i") auto
    qed
    from alt show ?thesis
    proof
      assume a: "s' = sc i \<and> fst (findBestMove_loop p b (Suc i) (sc i) (Some i)) = Some i"
      show ?thesis
        apply (rule exI [of _ s'])
        using a True i all s' step by auto
    next
      assume "\<exists>k. fst (findBestMove_loop p b (Suc i) (sc i) (Some i)) = Some k \<and> Suc i \<le> k \<and>
           k < length b \<and> b ! k = Null \<and> sc k = s' \<and> sc i < s' \<and>
           (\<forall>j. Suc i \<le> j \<and> j < k \<and> b ! j = Null \<longrightarrow> sc j < s')"
      then obtain k where k: "fst (findBestMove_loop p b (Suc i) (sc i) (Some i)) = Some k"
        "Suc i \<le> k" "k < length b" "b ! k = Null" "sc k = s'" "sc i < s'"
        "\<forall>j. Suc i \<le> j \<and> j < k \<and> b ! j = Null \<longrightarrow> sc j < s'"
        by blast
      have first: "\<forall>j. i \<le> j \<and> j < k \<and> b ! j = Null \<longrightarrow> sc j < s'"
      proof (intro allI impI)
        fix j assume "i \<le> j \<and> j < k \<and> b ! j = Null"
        then show "sc j < s'" using k(6,7) by (cases "j = i") auto
      qed
      have "s < s'" using True k(6) by auto
      then show ?thesis
        apply (intro exI [of _ s'])
        using k all first step by auto
    qed
  next
    case False
    then have step: "fst (findBestMove_loop p b i s m) =
        fst (findBestMove_loop p b (Suc i) s m)"
      using i by (subst findBestMove_loop_step) (auto simp: sc_def)
    from Suc.hyps(1) [OF n, of s m] obtain s' where
      s': "s \<le> s'" "\<forall>j. Suc i \<le> j \<and> j < length b \<and> b ! j = Null \<longrightarrow> sc j \<le> s'"
      and alt: "(s' = s \<and> fst (findBestMove_loop p b (Suc i) s m) = m) \<or>
        (\<exists>k. fst (findBestMove_loop p b (Suc i) s m) = Some k \<and> Suc i \<le> k \<and>
           k < length b \<and> b ! k = Null \<and> sc k = s' \<and> s < s' \<and>
           (\<forall>j. Suc i \<le> j \<and> j < k \<and> b ! j = Null \<longrightarrow> sc j < s'))"
      by blast
    have here: "b ! i = Null \<longrightarrow> sc i \<le> s" using False by auto
    have all: "\<forall>j. i \<le> j \<and> j < length b \<and> b ! j = Null \<longrightarrow> sc j \<le> s'"
    proof (intro allI impI)
      fix j assume "i \<le> j \<and> j < length b \<and> b ! j = Null"
      then show "sc j \<le> s'" using s' here by (cases "j = i") auto
    qed
    from alt show ?thesis
    proof
      assume a: "s' = s \<and> fst (findBestMove_loop p b (Suc i) s m) = m"
      show ?thesis
        apply (rule exI [of _ s'])
        using a all step by auto
    next
      assume "\<exists>k. fst (findBestMove_loop p b (Suc i) s m) = Some k \<and> Suc i \<le> k \<and>
           k < length b \<and> b ! k = Null \<and> sc k = s' \<and> s < s' \<and>
           (\<forall>j. Suc i \<le> j \<and> j < k \<and> b ! j = Null \<longrightarrow> sc j < s')"
      then obtain k where k: "fst (findBestMove_loop p b (Suc i) s m) = Some k"
        "Suc i \<le> k" "k < length b" "b ! k = Null" "sc k = s'" "s < s'"
        "\<forall>j. Suc i \<le> j \<and> j < k \<and> b ! j = Null \<longrightarrow> sc j < s'"
        by blast
      have first: "\<forall>j. i \<le> j \<and> j < k \<and> b ! j = Null \<longrightarrow> sc j < s'"
      proof (intro allI impI)
        fix j assume "i \<le> j \<and> j < k \<and> b ! j = Null"
        then show "sc j < s'" using k(6,7) here by (cases "j = i") auto
      qed
      show ?thesis
        apply (intro exI [of _ s'])
        using k all first step s' by auto
    qed
  qed
qed

lemma findBestMove_Some:
  assumes "fst (findBestMove p b) = Some k"
  shows "k < length b \<and> b ! k = Null \<and>
     (\<forall>j<length b. b ! j = Null \<longrightarrow>
        fst (minimax p (b[j := Sym (aiSymbol p)]) 0 False) \<le>
        fst (minimax p (b[k := Sym (aiSymbol p)]) 0 False)) \<and>
     (\<forall>j<k. b ! j = Null \<longrightarrow>
        fst (minimax p (b[j := Sym (aiSymbol p)]) 0 False) <
        fst (minimax p (b[k := Sym (aiSymbol p)]) 0 False))"
  using findBestMove_loop_inv [where p = p and b = b and i = 0 and s = NegInf and m = None] assms
  by (auto simp: findBestMove_def)

lemma findBestMove_None:
  assumes "aiSymbol p \<noteq> humanSymbol p"
  shows "fst (findBestMove p b) = None \<longleftrightarrow> (\<forall>i<length b. b ! i \<noteq> Null)"
proof
  assume none: "fst (findBestMove p b) = None"
  show "\<forall>i<length b. b ! i \<noteq> Null"
  proof (intro allI impI notI)
    fix i assume i: "i < length b" "b ! i = Null"
    from minimax_finite [OF assms, of "b[i := Sym (aiSymbol p)]" 0 False]
    obtain v where v: "fst (minimax p (b[i := Sym (aiSymbol p)]) 0 False) = Fin v" by blast
    from findBestMove_loop_inv [where p = p and b = b and i = 0 and s = NegInf and m = None] none
    have "fst (minimax p (b[i := Sym (aiSymbol p)]) 0 False) \<le> NegInf"
      using i by (auto simp: findBestMove_def)
    with v show False by simp
  qed
next
  assume full: "\<forall>i<length b. b ! i \<noteq> Null"
  show "fst (findBestMove p b) = None"
  proof (cases "fst (findBestMove p b)")
    case None
    then show ?thesis .
  next
    case (Some k)
    from findBestMove_Some [OF Some] full show ?thesis by blast
  qed
qed

text \<open>
  Claim C4. With two distinct marks, \<open>findBestMove\<close> returns \<^verbatim>\<open>null\<close> exactly when
  no cell of the board is \<^verbatim>\<open>null\<close>. A returned index is an empty cell of the board;
  its score (the AI's mark placed there, then \<open>minimax\<close> at depth 0 on the minimizing
  layer) is at least the score of every empty cell and strictly greater than the score
  of every empty cell before it.
\<close>

theorem findBestMove_spec:
  assumes "aiSymbol p \<noteq> humanSymbol p"
  shows "(fst (findBestMove p b) = None \<longleftrightarrow> (\<forall>i<length b. b ! i \<noteq> Null)) \<and>
         (\<forall>k. fst (findBestMove p b) = Some k \<longrightarrow>
            k < length b \<and> b ! k = Null \<and>
            (\<forall>j<length b. b ! j = Null \<longrightarrow>
               fst (minimax p (b[j := Sym (aiSymbol p)]) 0 False) \<le>
               fst (minimax p (b[k := Sym (aiSymbol p)]) 0 False)) \<and>
            (\<forall>j<k. b ! j = Null \<longrightarrow>
               fst (minimax p (b[j := Sym (aiSymbol p)]) 0 False) <
               fst (minimax p (b[k := Sym (aiSymbol p)]) 0 False)))"
  using findBestMove_None [OF assms, of b] findBestMove_Some [of p b]
  by blast

theorem findBestMove_spec_witness:
  "aiSymbol \<lparr>aiSymbol = MarkO, humanSymbol = MarkX\<rparr> \<noteq> humanSymbol \<lparr>aiSymbol = MarkO, humanSymbol = MarkX\<rparr> \<and>
   fst (findBestMove \<lparr>aiSymbol = MarkO, humanSymbol = MarkX\<rparr> [Sym MarkX, Sym MarkO, Sym MarkX, Sym MarkX, Sym MarkO, Sym MarkO, Null, Sym MarkX, Null]) = Some 6 \<and>
   6 < length [Sym MarkX, Sym MarkO, Sym MarkX, Sym MarkX, Sym MarkO, Sym MarkO, Null, Sym MarkX, Null] \<and> [Sym MarkX, Sym MarkO, Sym MarkX, Sym MarkX, Sym MarkO, Sym MarkO, Null, Sym MarkX, Null] ! 6 = Null"
proof -
  have h: "aiSymbol \<lparr>aiSymbol = MarkO, humanSymbol = MarkX\<rparr> \<noteq> humanSymbol \<lparr>aiSymbol = MarkO, humanSymbol = MarkX\<rparr>" by simp
  have v: "fst (findBestMove \<lparr>aiSymbol = MarkO, humanSymbol = MarkX\<rparr> [Sym MarkX, Sym MarkO, Sym MarkX, Sym MarkX, Sym MarkO, Sym MarkO, Null, Sym MarkX, Null]) = Some 6" by code_simp
  from findBestMove_spec [OF h, of "[Sym MarkX, Sym MarkO, Sym MarkX, Sym MarkX, Sym MarkO, Sym MarkO, Null, Sym MarkX, Null]"] v h show ?thesis by blast
qed

section \<open>Moves, turns and reset\<close>

text \<open>
  Claim C6, as stated, fails: \<open>makeMove\<close> has no range check, so on a fresh game index 9
  is accepted and the array grows to ten cells.
\<close>

theorem makeMove_out_of_range_counterexample:
  "makeMove 9 (newGameState \<lparr>score_X = 0, score_O = 0, score_draw = 0\<rparr>) =
     (True, \<lparr>board = replicate 9 Null @ [Sym MarkX], currentPlayer = MarkX,
             gameActive = True,
             scores = \<lparr>score_X = 0, score_O = 0, score_draw = 0\<rparr>\<rparr>)"
  by (simp add: makeMove_def newGameState_def js_get_def js_set_def truthy_def)

text \<open>
  Claim C6, amended. For an index inside the board, \<open>makeMove\<close> returns false and
  changes nothing when the cell holds a mark or the game is inactive; otherwise it
  writes the current mark into the cell, changes nothing else, and returns true.
\<close>

theorem makeMove_in_range:
  assumes "index < length (board s)"
  shows "makeMove index s =
           (if (\<exists>m. board s ! index = Sym m) \<or> \<not> gameActive s then (False, s)
            else (True, s\<lparr>board := (board s)[index := Sym (currentPlayer s)]\<rparr>))"
  using assms by (auto simp: makeMove_def truthy_def split: cell.splits)

theorem makeMove_in_range_witness:
  "4 < length (board (newGameState \<lparr>score_X = 0, score_O = 0, score_draw = 0\<rparr>)) \<and>
   makeMove 4 (newGameState \<lparr>score_X = 0, score_O = 0, score_draw = 0\<rparr>) =
     (True, \<lparr>board = [Null, Null, Null, Null, Sym MarkX, Null, Null, Null, Null],
             currentPlayer = MarkX, gameActive = True,
             scores = \<lparr>score_X = 0, score_O = 0, score_draw = 0\<rparr>\<rparr>)"
  using makeMove_in_range [of 4 "newGameState \<lparr>score_X = 0, score_O = 0, score_draw = 0\<rparr>"]
  by (simp add: newGameState_def numeral_eq_Suc)

text \<open>
  Claim C9. \<open>resetGame\<close> leaves nine \<^verbatim>\<open>null\<close> cells, mark X to move and the game
  active, and keeps the score ledger, the configuration and the AI player.
\<close>

theorem resetGame_frame:
  "board (state (resetGame g)) = replicate 9 Null \<and>
   currentPlayer (state (resetGame g)) = MarkX \<and>
   gameActive (state (resetGame g)) = True \<and>
   scores (state (resetGame g)) = scores (state g) \<and>
   config (resetGame g) = config g \<and>
   ai (resetGame g) = ai g"
  by (simp add: resetGame_def reset_def makeAIMove_def Let_def)

text \<open>
  Claim C7. After a click on one of the nine cells the mark to move is the other mark
  when the click was not ignored, \<open>makeMove\<close> accepted it and the board it left is not
  terminal; in every other case (click during the AI's turn, rejected move, game ended
  by the move) the mark to move is unchanged. On a board of at most nine cells the AI's
  callback follows the same rule for the cell \<open>findBestMove\<close> returns, and leaves the
  mark to move alone when it returns none.
\<close>

theorem turn_alternation:
  "(index < 9 \<longrightarrow>
      currentPlayer (state (handleCellClick index g)) =
        (if \<not> isAITurn (config g) (currentPlayer (state g)) \<and>
            fst (makeMove index (state g)) \<and>
            getGameResult (board (snd (makeMove index (state g)))) = None
         then (if currentPlayer (state g) = MarkX then MarkO else MarkX)
         else currentPlayer (state g))) \<and>
   (length (board (state g)) \<le> 9 \<longrightarrow>
      (\<forall>p. ai g = Some p \<longrightarrow>
         (\<exists>g'. aiMoveCallback g = Some g' \<and>
            currentPlayer (state g') =
              (case fst (findBestMove p (board (state g))) of
                 None \<Rightarrow> currentPlayer (state g)
               | Some bestMove \<Rightarrow>
                   if fst (makeMove bestMove (state g)) \<and>
                      getGameResult (board (snd (makeMove bestMove (state g)))) = None
                   then (if currentPlayer (state g) = MarkX then MarkO else MarkX)
                   else currentPlayer (state g)))))"
proof (intro conjI allI impI)
  show "currentPlayer (state (handleCellClick index g)) =
     (if \<not> isAITurn (config g) (currentPlayer (state g)) \<and>
         fst (makeMove index (state g)) \<and>
         getGameResult (board (snd (makeMove index (state g)))) = None
      then (if currentPlayer (state g) = MarkX then MarkO else MarkX)
      else currentPlayer (state g))"
    by (auto simp: handleCellClick_def makeMove_def handleGameEnd_def updateScore_def
        switchPlayer_def makeAIMove_def Let_def
        split: option.splits outcome.splits mark.splits)
next
  fix p assume "ai g = Some p"
  then show "\<exists>g'. aiMoveCallback g = Some g' \<and>
         currentPlayer (state g') =
           (case fst (findBestMove p (board (state g))) of
              None \<Rightarrow> currentPlayer (state g)
            | Some bestMove \<Rightarrow>
                if fst (makeMove bestMove (state g)) \<and>
                   getGameResult (board (snd (makeMove bestMove (state g)))) = None
                then (if currentPlayer (state g) = MarkX then MarkO else MarkX)
                else currentPlayer (state g))"
    by (auto simp: aiMoveCallback_def makeMove_def handleGameEnd_def updateScore_def
        switchPlayer_def Let_def
        split: option.splits outcome.splits mark.splits)
qed

theorem turn_alternation_witness:
  "(4::nat) < 9 \<and>
   currentPlayer (state (handleCellClick 4 (newGame \<lparr>score_X = 0, score_O = 0, score_draw = 0\<rparr>))) = MarkO \<and>
   currentPlayer (state (handleCellClick 4 (handleCellClick 4 (newGame \<lparr>score_X = 0, score_O = 0, score_draw = 0\<rparr>)))) = MarkO \<and>
   length (board (state
     \<lparr>config = newGameConfig\<lparr>mode := AIMode\<rparr>,
       state = \<lparr>board = [Sym MarkX, Sym MarkO, Sym MarkX, Sym MarkX, Sym MarkO, Sym MarkO, Null, Sym MarkX, Null],
                currentPlayer = MarkO, gameActive = True,
                scores = \<lparr>score_X = 0, score_O = 0, score_draw = 0\<rparr>\<rparr>,
       ai = Some \<lparr>aiSymbol = MarkO, humanSymbol = MarkX\<rparr>, pendingAIMoves = 0\<rparr>)) \<le> 9 \<and>
   (\<exists>g'. aiMoveCallback
     \<lparr>config = newGameConfig\<lparr>mode := AIMode\<rparr>,
       state = \<lparr>board = [Sym MarkX, Sym MarkO, Sym MarkX, Sym MarkX, Sym MarkO, Sym MarkO, Null, Sym MarkX, Null],
                currentPlayer = MarkO, gameActive = True,
                scores = \<lparr>score_X = 0, score_O = 0, score_draw = 0\<rparr>\<rparr>,
       ai = Some \<lparr>aiSymbol = MarkO, humanSymbol = MarkX\<rparr>, pendingAIMoves = 0\<rparr> = Some g' \<and>
      currentPlayer (state g') = MarkX)"
proof -
  let ?new = "(newGame \<lparr>score_X = 0, score_O = 0, score_draw = 0\<rparr>)"
  let ?g = "\<lparr>config = newGameConfig\<lparr>mode := AIMode\<rparr>,
       state = \<lparr>board = [Sym MarkX, Sym MarkO, Sym MarkX, Sym MarkX, Sym MarkO, Sym MarkO, Null, Sym MarkX, Null],
                currentPlayer = MarkO, gameActive = True,
                scores = \<lparr>score_X = 0, score_O = 0, score_draw = 0\<rparr>\<rparr>,
       ai = Some \<lparr>aiSymbol = MarkO, humanSymbol = MarkX\<rparr>, pendingAIMoves = 0\<rparr>"
  have four: "(4::nat) < 9" by simp
  have first: "currentPlayer (state (handleCellClick 4 ?new)) = MarkO"
    using turn_alternation [of 4 ?new]
    by (simp add: newGame_def newGameState_def newGameConfig_def
        isAITurn_def makeMove_def truthy_def js_get_def js_set_def getGameResult_def
        checkWinner_def checkDraw_def winningCombinations_def Let_def numeral_eq_Suc)
  have second: "currentPlayer (state (handleCellClick 4 (handleCellClick 4 ?new))) = MarkO"
    using turn_alternation [of 4 "handleCellClick 4 ?new"] first
    by (simp add: newGame_def newGameState_def newGameConfig_def handleCellClick_def
        isAITurn_def makeMove_def truthy_def js_get_def js_set_def getGameResult_def
        checkWinner_def checkDraw_def winningCombinations_def switchPlayer_def Let_def
        numeral_eq_Suc)
  have len: "length (board (state ?g)) \<le> 9" by simp
  have best: "fst (findBestMove \<lparr>aiSymbol = MarkO, humanSymbol = MarkX\<rparr>
      [Sym MarkX, Sym MarkO, Sym MarkX, Sym MarkX, Sym MarkO, Sym MarkO, Null, Sym MarkX, Null]) = Some 6"
    by code_simp
  have move: "makeMove 6 (state ?g) =
      (True, (state ?g)\<lparr>board := [Sym MarkX, Sym MarkO, Sym MarkX, Sym MarkX, Sym MarkO,
                                   Sym MarkO, Sym MarkO, Sym MarkX, Null]\<rparr>)"
    by (simp add: makeMove_def truthy_def js_get_def js_set_def)
  have ongoing: "getGameResult [Sym MarkX, Sym MarkO, Sym MarkX, Sym MarkX, Sym MarkO,
      Sym MarkO, Sym MarkO, Sym MarkX, Null] = None"
    by code_simp
  have ai: "ai ?g = Some \<lparr>aiSymbol = MarkO, humanSymbol = MarkX\<rparr>" by simp
  from turn_alternation [of 0 ?g] len ai
  have "\<exists>g'. aiMoveCallback ?g = Some g' \<and>
      currentPlayer (state g') =
        (case fst (findBestMove \<lparr>aiSymbol = MarkO, humanSymbol = MarkX\<rparr> (board (state ?g))) of
           None \<Rightarrow> currentPlayer (state ?g)
         | Some bestMove \<Rightarrow>
             if fst (makeMove bestMove (state ?g)) \<and>
                getGameResult (board (snd (makeMove bestMove (state ?g)))) = None
             then (if currentPlayer (state ?g) = MarkX then MarkO else MarkX)
             else currentPlayer (state ?g))"
    by blast
  moreover have "board (state ?g) = [Sym MarkX, Sym MarkO, Sym MarkX, Sym MarkX, Sym MarkO, Sym MarkO, Null, Sym MarkX, Null]" by simp
  ultimately have third: "\<exists>g'. aiMoveCallback ?g = Some g' \<and> currentPlayer (state g') = MarkX"
    using best move ongoing by simp
  from four first second len third show ?thesis by blast
qed

section \<open>The AI never loses\<close>

text \<open>
  The loops of \<open>holds\<close> are a bounded \<open>\<exists>\<close> and a bounded \<open>\<forall>\<close> over the empty cells, and
  as long as no terminal score can change sign (the depth stays below 10 along every
  line of play) the sign of \<open>minimax\<close> is \<open>holds\<close>: the score is at least 0 exactly
  when the AI's mark holds, and at most 0 exactly when the human's mark holds.
\<close>

lemma holds_some_iff:
  "holds_some p who b m i \<longleftrightarrow>
     (\<exists>j. i \<le> j \<and> j < length b \<and> b ! j = Null \<and> holds p who (b[j := Sym (mover p m)]) (\<not> m))"
proof (induction "length b - i" arbitrary: i)
  case 0
  then show ?case by (subst holds_some.simps) auto
next
  case (Suc n)
  then have i: "i < length b" and n: "n = length b - Suc i" by auto
  have split: "(\<exists>j. i \<le> j \<and> Q j) \<longleftrightarrow> Q i \<or> (\<exists>j. Suc i \<le> j \<and> Q j)" for Q
    by (metis Suc_leD Suc_le_eq le_eq_less_or_eq order_refl)
  show ?case
    by (subst holds_some.simps, subst split) (use i Suc.hyps(1) [OF n] in auto)
qed

lemma holds_all_iff:
  "holds_all p who b m i \<longleftrightarrow>
     (\<forall>j. i \<le> j \<and> j < length b \<and> b ! j = Null \<longrightarrow> holds p who (b[j := Sym (mover p m)]) (\<not> m))"
proof (induction "length b - i" arbitrary: i)
  case 0
  then show ?case by (subst holds_all.simps) auto
next
  case (Suc n)
  then have i: "i < length b" and n: "n = length b - Suc i" by auto
  have split: "(\<forall>j. i \<le> j \<and> Q j \<longrightarrow> R j) \<longleftrightarrow> (Q i \<longrightarrow> R i) \<and> (\<forall>j. Suc i \<le> j \<and> Q j \<longrightarrow> R j)" for Q R
    by (metis Suc_leD Suc_le_eq le_eq_less_or_eq order_refl)
  show ?case
    by (subst holds_all.simps, subst split) (use i Suc.hyps(1) [OF n] in auto)
qed

lemma holds_nonterminal:
  assumes "checkGameState b = None"
  shows "holds p who b m \<longleftrightarrow>
     (if mover p m = who
      then \<exists>j<length b. b ! j = Null \<and> holds p who (b[j := Sym (mover p m)]) (\<not> m)
      else \<forall>j<length b. b ! j = Null \<longrightarrow> holds p who (b[j := Sym (mover p m)]) (\<not> m))"
  using assms by (subst holds.simps) (auto simp: holds_some_iff holds_all_iff)

lemma holds_terminal:
  "checkGameState b = Some (Won w) \<Longrightarrow> holds p who b m \<longleftrightarrow> w = who"
  "checkGameState b = Some Draw \<Longrightarrow> holds p who b m"
  by (subst holds.simps, simp)+

lemma nulls_trial_int:
  "i < length b \<Longrightarrow> b ! i = Null \<Longrightarrow> int (nulls (b[i := Sym m])) + 1 = int (nulls b)"
  using nulls_trial [of i b m] by simp

lemma minimax_nonneg_iff:
  assumes ne: "aiSymbol p \<noteq> humanSymbol p"
  shows "d + int (nulls b) < 10 \<Longrightarrow>
     Fin 0 \<le> fst (minimax p b d m) \<longleftrightarrow> holds p (aiSymbol p) b m"
proof (induction "nulls b" arbitrary: b d m rule: less_induct)
  case less
  show ?case
  proof (cases "checkGameState b")
    case (Some r)
    show ?thesis
    proof (cases r)
      case (Won w)
      from mark_cases2 [OF ne, of w] show ?thesis
      proof
        assume "w = aiSymbol p"
        with Some Won less.prems show ?thesis
          by (simp add: minimax_terminal(1) holds_terminal(1))
      next
        assume "w = humanSymbol p"
        with Some Won less.prems ne show ?thesis
          by (simp add: minimax_terminal(2) holds_terminal(1))
      qed
    next
      case Draw
      with Some show ?thesis by (simp add: minimax_terminal(3) holds_terminal(2))
    qed
  next
    case None
    let ?E = "{i. i < length b \<and> b ! i = Null}"
    from checkGameState_None_empty [OF None] have E: "?E \<noteq> {}" "finite ?E" by auto
    have IH: "Fin 0 \<le> fst (minimax p (b[j := Sym s]) (d + 1) m') \<longleftrightarrow>
        holds p (aiSymbol p) (b[j := Sym s]) m'" if "j \<in> ?E" for j s m'
      using that less.prems nulls_trial_int [of j b s]
      by (intro less.hyps) (auto simp: nulls_trial_less)
    show ?thesis
    proof (cases m)
      case True
      have "Fin 0 \<le> fst (minimax p b d True) \<longleftrightarrow>
          (\<exists>j\<in>?E. Fin 0 \<le> fst (minimax p (b[j := Sym (aiSymbol p)]) (d + 1) False))"
        unfolding minimax_maximizing [OF None] using E by (subst Max_ge_iff) auto
      also have "\<dots> \<longleftrightarrow> (\<exists>j\<in>?E. holds p (aiSymbol p) (b[j := Sym (aiSymbol p)]) False)"
        using IH by blast
      finally show ?thesis
        using True by (auto simp: holds_nonterminal [OF None] mover_def)
    next
      case False
      have "Fin 0 \<le> fst (minimax p b d False) \<longleftrightarrow>
          (\<forall>j\<in>?E. Fin 0 \<le> fst (minimax p (b[j := Sym (humanSymbol p)]) (d + 1) True))"
        unfolding minimax_minimizing [OF None] using E by (subst Min_ge_iff) auto
      also have "\<dots> \<longleftrightarrow> (\<forall>j\<in>?E. holds p (aiSymbol p) (b[j := Sym (humanSymbol p)]) True)"
        using IH by blast
      finally show ?thesis
        using False ne by (auto simp: holds_nonterminal [OF None] mover_def)
    qed
  qed
qed

lemma minimax_nonpos_iff:
  assumes ne: "aiSymbol p \<noteq> humanSymbol p"
  shows "d + int (nulls b) < 10 \<Longrightarrow>
     fst (minimax p b d m) \<le> Fin 0 \<longleftrightarrow> holds p (humanSymbol p) b m"
proof (induction "nulls b" arbitrary: b d m rule: less_induct)
  case less
  show ?case
  proof (cases "checkGameState b")
    case (Some r)
    show ?thesis
    proof (cases r)
      case (Won w)
      from mark_cases2 [OF ne, of w] show ?thesis
      proof
        assume "w = aiSymbol p"
        with Some Won less.prems ne show ?thesis
          by (simp add: minimax_terminal(1) holds_terminal(1))
      next
        assume "w = humanSymbol p"
        with Some Won less.prems ne show ?thesis
          by (simp add: minimax_terminal(2) holds_terminal(1))
      qed
    next
      case Draw
      with Some show ?thesis by (simp add: minimax_terminal(3) holds_terminal(2))
    qed
  next
    case None
    let ?E = "{i. i < length b \<and> b ! i = Null}"
    from checkGameState_None_empty [OF None] have E: "?E \<noteq> {}" "finite ?E" by auto
    have IH: "fst (minimax p (b[j := Sym s]) (d + 1) m') \<le> Fin 0 \<longleftrightarrow>
        holds p (humanSymbol p) (b[j := Sym s]) m'" if "j \<in> ?E" for j s m'
      using that less.prems nulls_trial_int [of j b s]
      by (intro less.hyps) (auto simp: nulls_trial_less)
    show ?thesis
    proof (cases m)
      case True
      have "fst (minimax p b d True) \<le> Fin 0 \<longleftrightarrow>
          (\<forall>j\<in>?E. fst (minimax p (b[j := Sym (aiSymbol p)]) (d + 1) False) \<le> Fin 0)"
        unfolding minimax_maximizing [OF None] using E by (subst Max_le_iff) auto
      also have "\<dots> \<longleftrightarrow> (\<forall>j\<in>?E. holds p (humanSymbol p) (b[j := Sym (aiSymbol p)]) False)"
        using IH by blast
      finally show ?thesis
        using True ne by (auto simp: holds_nonterminal [OF None] mover_def)
    next
      case False
      have "fst (minimax p b d False) \<le> Fin 0 \<longleftrightarrow>
          (\<exists>j\<in>?E. fst (minimax p (b[j := Sym (humanSymbol p)]) (d + 1) True) \<le> Fin 0)"
        unfolding minimax_minimizing [OF None] using E by (subst Min_le_iff) auto
      also have "\<dots> \<longleftrightarrow> (\<exists>j\<in>?E. holds p (humanSymbol p) (b[j := Sym (humanSymbol p)]) True)"
        using IH by blast
      finally show ?thesis
        using False by (auto simp: holds_nonterminal [OF None] mover_def)
    qed
  qed
qed

text \<open>
  From the empty board both marks hold. The two facts are computed, with the terminal
  test unrolled for a board of nine cells.
\<close>

lemma checkGameState_loop_tri:
  "checkGameState_loop bd ([x, y, z] # rest) =
     tri (js_get bd x) (js_get bd y) (js_get bd z) (checkGameState_loop bd rest)"
  by (cases "js_get bd x") (simp_all add: tri_def Let_def)

lemma js_get9:
  "js_get [a, b, c, d, e, f, g, h, i] 0 = a"
  "js_get [a, b, c, d, e, f, g, h, i] 1 = b"
  "js_get [a, b, c, d, e, f, g, h, i] 2 = c"
  "js_get [a, b, c, d, e, f, g, h, i] 3 = d"
  "js_get [a, b, c, d, e, f, g, h, i] 4 = e"
  "js_get [a, b, c, d, e, f, g, h, i] 5 = f"
  "js_get [a, b, c, d, e, f, g, h, i] 6 = g"
  "js_get [a, b, c, d, e, f, g, h, i] 7 = h"
  "js_get [a, b, c, d, e, f, g, h, i] 8 = i"
  by (simp_all add: js_get_def)

lemma checkGameState9:
  "checkGameState [a, b, c, d, e, f, g, h, i] =
     (case tri a b c (tri d e f (tri g h i (tri a d g (tri b e h (tri c f i (tri a e i
             (tri c e g None))))))) of
        Some m \<Rightarrow> Some (Won m)
      | None \<Rightarrow>
         if a \<noteq> Null \<and> b \<noteq> Null \<and> c \<noteq> Null \<and> d \<noteq> Null \<and> e \<noteq> Null \<and> f \<noteq> Null \<and>
            g \<noteq> Null \<and> h \<noteq> Null \<and> i \<noteq> Null then Some Draw else None)"
  unfolding checkGameState_def ai_winningCombinations_def
  by (simp only: checkGameState_loop_tri checkGameState_loop.simps(1) js_get9
      list.pred_inject simp_thms)

declare checkGameState9 [code]

lemma ai_holds_empty:
  "holds theAI MarkO [Null, Null, Null, Null, Null, Null, Null, Null, Null] False"
  by code_simp

lemma human_holds_empty:
  "holds theAI MarkX [Null, Null, Null, Null, Null, Null, Null, Null, Null] False"
  by code_simp

text \<open>
  One human move keeps the session in such a state: the click is rejected, or ends the
  game without a win for X, or is answered by the AI's callback, whose cell scores at
  least as much as a cell from which O still holds.
\<close>

lemma nulls_le_length: "nulls b \<le> length b"
  by (simp add: nulls_def)

lemma holds_flag_terminal:
  "checkGameState b = Some r \<Longrightarrow> holds p who b m \<longleftrightarrow> holds p who b m'"
  by (cases r) (simp_all add: holds_terminal)

lemma updateScore_X:
  "w \<noteq> Won MarkX \<Longrightarrow> score_X (scores (updateScore w s)) = score_X (scores s)"
  by (auto simp: updateScore_def split: outcome.splits mark.splits)

lemma updateScore_fields [simp]:
  "board (updateScore w s) = board s"
  "gameActive (updateScore w s) = gameActive s"
  "currentPlayer (updateScore w s) = currentPlayer s"
  by (auto simp: updateScore_def split: outcome.splits mark.splits)

lemma not_Hole_update:
  "Hole \<notin> set b \<Longrightarrow> Hole \<notin> set (b[i := Sym m])"
  by (metis cell.distinct(5) insert_iff set_update_subset_insert subsetD)

lemma ended_game:
  assumes g: "mode (config g) = AIMode" "aiPlayer (config g) = MarkO" "ai g = Some theAI"
    "pendingAIMoves g = 0" "length (board (state g)) = 9" "Hole \<notin> set (board (state g))"
    "score_X (scores (state g)) = x"
    and h: "holds theAI MarkO (board (state g)) m"
    and r: "getGameResult (board (state g)) = Some result"
  shows "ai_session x (handleGameEnd result g)"
proof -
  from r have c: "checkGameState (board (state g)) = Some (winner result)"
    by (simp add: checkGameState_getGameResult)
  from h c have w: "winner result \<noteq> Won MarkX"
    by (cases "winner result") (auto simp: holds_terminal)
  from h c have "holds theAI MarkO (board (state g)) False"
    using holds_flag_terminal by blast
  with g w show ?thesis
    by (simp add: ai_session_def handleGameEnd_def updateScore_X)
qed

lemma ai_reply:
  assumes g: "mode (config g) = AIMode" "aiPlayer (config g) = MarkO" "ai g = Some theAI"
    "pendingAIMoves g = 0" "length (board (state g)) = 9" "Hole \<notin> set (board (state g))"
    "score_X (scores (state g)) = x" "gameActive (state g)" "currentPlayer (state g) = MarkO"
    and h: "holds theAI MarkO (board (state g)) True"
    and n: "checkGameState (board (state g)) = None"
  shows "\<exists>g'. aiMoveCallback g = Some g' \<and> ai_session x g'"
proof -
  let ?b = "board (state g)"
  have ne: "aiSymbol theAI \<noteq> humanSymbol theAI" by simp
  from checkGameState_None_empty [OF n] findBestMove_None [OF ne, of ?b]
  obtain k where k: "fst (findBestMove theAI ?b) = Some k" by auto
  note best = findBestMove_Some [OF k]
  from h n obtain j where j: "j < length ?b" "?b ! j = Null"
    "holds theAI MarkO (?b[j := Sym MarkO]) False"
    by (auto simp: holds_nonterminal mover_def)
  have bound: "0 + int (nulls (?b[i := Sym MarkO])) < 10" for i
    using nulls_le_length [of "?b[i := Sym MarkO]"] g(5) by simp
  from j(3) have "Fin 0 \<le> fst (minimax theAI (?b[j := Sym MarkO]) 0 False)"
    using minimax_nonneg_iff [OF ne bound, of j False] by simp
  also have "\<dots> \<le> fst (minimax theAI (?b[k := Sym MarkO]) 0 False)"
    using best j by simp
  finally have hk: "holds theAI MarkO (?b[k := Sym MarkO]) False"
    using minimax_nonneg_iff [OF ne bound, of k False] by simp
  from best have kk: "k < length ?b" "?b ! k = Null" by blast+
  let ?g = "g\<lparr>state := (state g)\<lparr>board := ?b[k := Sym MarkO]\<rparr>\<rparr>"
  have mv: "makeMove k (state g) = (True, (state g)\<lparr>board := ?b[k := Sym MarkO]\<rparr>)"
    using kk g by (simp add: makeMove_def truthy_def)
  show ?thesis
  proof (cases "getGameResult (?b[k := Sym MarkO])")
    case None
    then have "checkGameState (?b[k := Sym MarkO]) = None"
      by (simp add: checkGameState_getGameResult)
    with None hk g kk have "ai_session x (?g\<lparr>state := switchPlayer (state ?g)\<rparr>)"
      by (simp add: ai_session_def switchPlayer_def not_Hole_update)
    moreover have "aiMoveCallback g = Some (?g\<lparr>state := switchPlayer (state ?g)\<rparr>)"
      using g k mv None by (simp add: aiMoveCallback_def)
    ultimately show ?thesis by blast
  next
    case (Some result)
    have "ai_session x (handleGameEnd result ?g)"
      using g kk hk Some by (intro ended_game [where m = False]) (simp_all add: not_Hole_update)
    moreover have "aiMoveCallback g = Some (handleGameEnd result ?g)"
      using g k mv Some by (simp add: aiMoveCallback_def)
    ultimately show ?thesis by blast
  qed
qed

lemma human_click:
  assumes inv: "ai_session x g" and i: "i < 9"
  shows "\<exists>g'. fireTimer (handleCellClick i g) = Some g' \<and> ai_session x g'"
proof (cases "gameActive (state g) \<and> board (state g) ! i = Null")
  case False
  let ?b = "board (state g)"
  from inv i have "?b ! i \<in> set ?b" "Hole \<notin> set ?b" by (simp_all add: ai_session_def)
  then have "?b ! i \<noteq> Hole" by metis
  with False have "\<not> gameActive (state g) \<or> truthy (?b ! i)"
    by (cases "?b ! i") (auto simp: truthy_def)
  with inv i have "handleCellClick i g = g"
    by (auto simp: handleCellClick_def makeMove_def ai_session_def)
  with inv show ?thesis by (simp add: fireTimer_def ai_session_def)
next
  case True
  let ?b = "board (state g)"
  from inv True have g: "mode (config g) = AIMode" "aiPlayer (config g) = MarkO"
    "ai g = Some theAI" "pendingAIMoves g = 0" "length ?b = 9" "Hole \<notin> set ?b"
    "score_X (scores (state g)) = x" "holds theAI MarkO ?b False"
    "currentPlayer (state g) = MarkX" "checkGameState ?b = None" "gameActive (state g)"
    "?b ! i = Null" "i < length ?b"
    using i by (simp_all add: ai_session_def)
  from g(8,10,12,13) have h': "holds theAI MarkO (?b[i := Sym MarkX]) True"
    by (auto simp: holds_nonterminal mover_def)
  let ?g = "g\<lparr>state := (state g)\<lparr>board := ?b[i := Sym MarkX]\<rparr>\<rparr>"
  have mv: "makeMove i (state g) = (True, (state g)\<lparr>board := ?b[i := Sym MarkX]\<rparr>)"
    using g by (simp add: makeMove_def truthy_def)
  have turn: "\<not> isAITurn (config g) (currentPlayer (state g))"
    using g by (simp add: isAITurn_def)
  show ?thesis
  proof (cases "getGameResult (?b[i := Sym MarkX])")
    case (Some result)
    have "ai_session x (handleGameEnd result ?g)"
      using g h' Some by (intro ended_game [where m = True]) (simp_all add: not_Hole_update)
    moreover have "handleCellClick i g = handleGameEnd result ?g"
      using turn mv Some by (simp add: handleCellClick_def)
    moreover have "pendingAIMoves (handleGameEnd result ?g) = 0"
      using g by (simp add: handleGameEnd_def)
    ultimately show ?thesis by (simp add: fireTimer_def)
  next
    case None
    let ?g1 = "?g\<lparr>state := switchPlayer (state ?g)\<rparr>"
    have click: "handleCellClick i g = makeAIMove ?g1"
      using turn mv None g by (simp add: handleCellClick_def isAITurn_def switchPlayer_def)
    have fire: "fireTimer (makeAIMove ?g1) = aiMoveCallback ?g1"
      by (simp add: fireTimer_def makeAIMove_def)
    have "\<exists>g'. aiMoveCallback ?g1 = Some g' \<and> ai_session x g'"
      using g h' None
      by (intro ai_reply)
         (simp_all add: switchPlayer_def not_Hole_update checkGameState_getGameResult)
    with click fire show ?thesis by simp
  qed
qed

lemma human_moves_safe:
  assumes "ai_session x g" "\<forall>i\<in>set clicks. i < 9"
  shows "\<exists>g'. run (human_moves clicks) g = Some g' \<and> ai_session x g'"
  using assms
proof (induction clicks arbitrary: g)
  case Nil
  then show ?case by (simp add: human_moves_def)
next
  case (Cons i clicks)
  from human_click [OF Cons.prems(1), of i] Cons.prems(2)
  obtain g1 where g1: "fireTimer (handleCellClick i g) = Some g1" "ai_session x g1" by auto
  from Cons.IH [OF g1(2)] Cons.prems(2)
  obtain g' where "run (human_moves clicks) g1 = Some g'" "ai_session x g'" by auto
  with g1 show ?case by (simp add: human_moves_def step_def)
qed

lemma replicate9: "replicate 9 Null = [Null, Null, Null, Null, Null, Null, Null, Null, Null]"
  by (simp add: numeral_eq_Suc)

lemma empty_board_value:
  "fst (minimax theAI (replicate 9 Null) 0 False) = Fin 0"
proof -
  have ne: "aiSymbol theAI \<noteq> humanSymbol theAI" by simp
  have bound: "0 + int (nulls (replicate 9 Null)) < 10"
    using nulls_le_length [of "replicate 9 Null"] by simp
  have "Fin 0 \<le> fst (minimax theAI (replicate 9 Null) 0 False)"
    using minimax_nonneg_iff [OF ne bound, of False] ai_holds_empty by (simp add: replicate9)
  moreover have "fst (minimax theAI (replicate 9 Null) 0 False) \<le> Fin 0"
    using minimax_nonpos_iff [OF ne bound, of False] human_holds_empty by (simp add: replicate9)
  ultimately show ?thesis by (rule antisym [rotated])
qed

lemma startGame_ai:
  "startGame \<lparr>sd_mode = AIMode, playerXName = nx, playerOName = no\<rparr> (newGame loaded) =
     \<lparr>config = config (startGame \<lparr>sd_mode = AIMode, playerXName = nx, playerOName = no\<rparr>
                  (newGame loaded)),
      state = newGameState loaded, ai = Some theAI, pendingAIMoves = 0\<rparr>"
  "mode (config (startGame \<lparr>sd_mode = AIMode, playerXName = nx, playerOName = no\<rparr>
      (newGame loaded))) = AIMode"
  "aiPlayer (config (startGame \<lparr>sd_mode = AIMode, playerXName = nx, playerOName = no\<rparr>
      (newGame loaded))) = MarkO"
  by (simp_all add: startGame_def newGame_def newGameConfig_def setMode_def setPlayerName_def
      Let_def)

lemma ai_session_start:
  "ai_session (score_X loaded)
     (startGame \<lparr>sd_mode = AIMode, playerXName = nx, playerOName = no\<rparr> (newGame loaded))"
proof -
  have "checkGameState (replicate 9 Null) = None"
    unfolding replicate9 by code_simp
  then show ?thesis
    using ai_holds_empty
    by (subst startGame_ai(1))
       (simp add: ai_session_def startGame_ai(2,3) newGameState_def replicate9 [symmetric])
qed

text \<open>
  Claim C1. A session is started in AI mode on a new game (the AI plays O and replies
  with \<open>findBestMove\<close> when its timer fires). Whatever cells 0..8 the human clicks, in
  whatever order, the session runs without error and ends on a board that is not won
  by X, with X's score counter where it was. And \<open>minimax\<close> scores the empty board,
  human to move, exactly 0.
\<close>

theorem ai_never_loses:
  assumes "\<forall>i\<in>set clicks. i < 9"
  shows "(\<exists>g. run (human_moves clicks)
              (startGame \<lparr>sd_mode = AIMode, playerXName = nx, playerOName = no\<rparr>
                 (newGame loaded)) = Some g \<and>
            (\<forall>t. getGameResult (board (state g)) \<noteq>
                    Some \<lparr>winner = Won MarkX, combination = t\<rparr>) \<and>
            score_X (scores (state g)) = score_X loaded) \<and>
         fst (minimax \<lparr>aiSymbol = MarkO, humanSymbol = MarkX\<rparr> (replicate 9 Null) 0 False) = Fin 0"
proof -
  from human_moves_safe [OF ai_session_start assms]
  obtain g where g: "run (human_moves clicks)
      (startGame \<lparr>sd_mode = AIMode, playerXName = nx, playerOName = no\<rparr> (newGame loaded)) =
        Some g" "ai_session (score_X loaded) g"
    by blast
  have "getGameResult (board (state g)) \<noteq> Some \<lparr>winner = Won MarkX, combination = t\<rparr>" for t
  proof
    assume "getGameResult (board (state g)) = Some \<lparr>winner = Won MarkX, combination = t\<rparr>"
    then have "checkGameState (board (state g)) = Some (Won MarkX)"
      by (simp add: checkGameState_getGameResult)
    with g(2) show False by (simp add: ai_session_def holds_terminal(1))
  qed
  with g empty_board_value show ?thesis by (auto simp: ai_session_def)
qed

theorem ai_never_loses_witness:
  "list_all (\<lambda>i. i < (9::nat)) [4, 0, 8, 4] \<and>
   ((\<exists>g. run (human_moves [4, 0, 8, 4])
              (startGame \<lparr>sd_mode = AIMode, playerXName = ''Ana'', playerOName = []\<rparr>
                 (newGame \<lparr>score_X = 2, score_O = 1, score_draw = 0\<rparr>)) = Some g \<and>
            (\<forall>t. getGameResult (board (state g)) \<noteq>
                    Some \<lparr>winner = Won MarkX, combination = t\<rparr>) \<and>
            score_X (scores (state g)) = score_X \<lparr>score_X = 2, score_O = 1, score_draw = 0\<rparr>) \<and>
    fst (minimax \<lparr>aiSymbol = MarkO, humanSymbol = MarkX\<rparr> (replicate 9 Null) 0 False) = Fin 0)"
proof -
  have l: "list_all (\<lambda>i. i < (9::nat)) [4, 0, 8, 4]" by simp
  have h: "\<forall>i\<in>set [4, 0, 8, 4]. i < (9::nat)" by simp
  from l ai_never_loses [OF h, of "''Ana''" "[]" "\<lparr>score_X = 2, score_O = 1, score_draw = 0\<rparr>"]
  show ?thesis ..
qed

section \<open>A reset while the AI's timer is pending\<close>

lemma single_mark_ongoing:
  assumes "k < 9"
  shows "getGameResult ((replicate 9 Null)[k := Sym m]) = None"
proof -
  from assms have "k = 0 \<or> k = 1 \<or> k = 2 \<or> k = 3 \<or> k = 4 \<or> k = 5 \<or> k = 6 \<or> k = 7 \<or> k = 8"
    by arith
  then show ?thesis
    by (elim disjE)
       (simp_all add: replicate9 getGameResult_def checkWinner_def winningCombinations_def
          checkDraw_def js_get_def Let_def)
qed

lemma human_holds_second:
  "holds theAI MarkX [Null, Null, Null, Null, Null, Null, Null, Null, Null] True"
  by code_simp

lemma ai_holds_corner:
  "holds theAI MarkO [Sym MarkO, Null, Null, Null, Null, Null, Null, Null, Null] False"
  by code_simp

lemma findBestMove_empty: "fst (findBestMove theAI (replicate 9 Null)) = Some 0"
proof -
  let ?e = "replicate 9 Null :: board"
  have ne: "aiSymbol theAI \<noteq> humanSymbol theAI" by simp
  have "\<not> (\<forall>i<length ?e. ?e ! i \<noteq> Null)"
    by (simp add: exI [of _ 0])
  with findBestMove_None [OF ne, of ?e]
  obtain k where k: "fst (findBestMove theAI ?e) = Some k" by blast
  note best = findBestMove_Some [OF k]
  have bound: "0 + int (nulls (?e[i := Sym MarkO])) < 10" for i
    using nulls_le_length [of "?e[i := Sym MarkO]"] by simp
  have "checkGameState ?e = None"
    unfolding replicate9 by code_simp
  from human_holds_second [folded replicate9] this
  have "holds theAI MarkX (?e[k := Sym MarkO]) False"
    using best by (simp add: holds_nonterminal mover_def)
  then have upper: "fst (minimax theAI (?e[k := Sym MarkO]) 0 False) \<le> Fin 0"
    using minimax_nonpos_iff [OF ne bound, of k False] by simp
  have "?e[0 := Sym MarkO] = [Sym MarkO, Null, Null, Null, Null, Null, Null, Null, Null]"
    by (simp add: replicate9)
  with ai_holds_corner have "holds theAI MarkO (?e[0 := Sym MarkO]) False" by simp
  then have lower: "Fin 0 \<le> fst (minimax theAI (?e[0 := Sym MarkO]) 0 False)"
    using minimax_nonneg_iff [OF ne bound, of 0 False] by simp
  have "k = 0"
  proof (rule ccontr)
    assume "k \<noteq> 0"
    then have "0 < k" by simp
    with best have "fst (minimax theAI (?e[0 := Sym MarkO]) 0 False) <
        fst (minimax theAI (?e[k := Sym MarkO]) 0 False)"
      by simp
    with upper lower show False by simp
  qed
  with k show ?thesis by simp
qed

lemma click_then_reset:
  fixes c loaded
  assumes c: "mode c = AIMode" "aiPlayer c = MarkO"
  defines "g0 \<equiv> \<lparr>config = c, state = newGameState loaded, ai = Some theAI, pendingAIMoves = 0\<rparr>"
  shows "resetGame (handleCellClick 4 g0) = g0\<lparr>pendingAIMoves := 1\<rparr>"
proof -
  have mv: "makeMove 4 (newGameState loaded) =
      (True, (newGameState loaded)\<lparr>board := (replicate 9 Null)[4 := Sym MarkX]\<rparr>)"
    by (simp add: makeMove_def newGameState_def truthy_def)
  have "handleCellClick 4 g0 =
      g0\<lparr>state := (newGameState loaded)
              \<lparr>board := (replicate 9 Null)[4 := Sym MarkX], currentPlayer := MarkO\<rparr>,
         pendingAIMoves := 1\<rparr>"
    using c mv single_mark_ongoing [of 4 MarkX]
    by (simp add: handleCellClick_def g0_def isAITurn_def newGameState_def switchPlayer_def
        makeAIMove_def)
  then show ?thesis
    using c by (simp add: resetGame_def reset_def g0_def isAITurn_def newGameState_def)
qed

lemma stale_callback:
  fixes c loaded
  defines "g0 \<equiv> \<lparr>config = c, state = newGameState loaded, ai = Some theAI, pendingAIMoves = 0\<rparr>"
  shows "fireTimer (g0\<lparr>pendingAIMoves := 1\<rparr>) =
      Some (g0\<lparr>state := (newGameState loaded)
              \<lparr>board := (replicate 9 Null)[0 := Sym MarkX], currentPlayer := MarkO\<rparr>\<rparr>)"
proof -
  have mv: "makeMove 0 (newGameState loaded) =
      (True, (newGameState loaded)\<lparr>board := (replicate 9 Null)[0 := Sym MarkX]\<rparr>)"
    by (simp add: makeMove_def newGameState_def truthy_def)
  have "fireTimer (g0\<lparr>pendingAIMoves := 1\<rparr>) = aiMoveCallback g0"
    by (simp add: fireTimer_def g0_def)
  also have "\<dots> = Some (g0\<lparr>state := (newGameState loaded)
              \<lparr>board := (replicate 9 Null)[0 := Sym MarkX], currentPlayer := MarkO\<rparr>\<rparr>)"
    using findBestMove_empty mv single_mark_ongoing [of 0 MarkX]
    by (simp add: aiMoveCallback_def g0_def newGameState_def switchPlayer_def)
  finally show ?thesis .
qed

text \<open>
  Claim C8 does not hold of the code. In an AI session the human clicks cell 4, which
  starts the AI's timer; the game is reset before the timer runs out; then the timer
  fires. The callback does not notice the reset: it asks \<open>findBestMove\<close> for a cell of
  the new, empty board and gets cell 0, \<open>makeMove\<close> writes the mark to move there, which
  after the reset is the human's X, and the turn passes to O with no timer pending.
\<close>

theorem stale_ai_callback_moves:
  "run [Click 4, Reset, Timer]
       (startGame \<lparr>sd_mode = AIMode, playerXName = nx, playerOName = no\<rparr> (newGame loaded)) =
     Some \<lparr>config = config (startGame \<lparr>sd_mode = AIMode, playerXName = nx, playerOName = no\<rparr>
                      (newGame loaded)),
           state = \<lparr>board = [Sym MarkX, Null, Null, Null, Null, Null, Null, Null, Null],
                    currentPlayer = MarkO, gameActive = True, scores = loaded\<rparr>,
           ai = Some \<lparr>aiSymbol = MarkO, humanSymbol = MarkX\<rparr>, pendingAIMoves = 0\<rparr>"
proof -
  let ?c = "config (startGame \<lparr>sd_mode = AIMode, playerXName = nx, playerOName = no\<rparr>
      (newGame loaded))"
  let ?g0 = "\<lparr>config = ?c, state = newGameState loaded, ai = Some theAI, pendingAIMoves = 0\<rparr>"
  have "run [Click 4, Reset, Timer] ?g0 = fireTimer (?g0\<lparr>pendingAIMoves := 1\<rparr>)"
    using click_then_reset [OF startGame_ai(2,3), of nx no loaded loaded]
    by (simp add: step_def split: option.splits)
  with stale_callback [of ?c loaded] show ?thesis
    by (subst startGame_ai(1)) (simp add: newGameState_def replicate9)
qed

end
